theory Spec2Isabelle
  imports Main
begin

section \<open>JavaScript strings\<close>

text \<open>
  A JavaScript string is modelled as a \<^typ>\<open>string\<close>: the list of the bytes of the
  text in UTF-8, which is what the subprocess writes and what \<^verbatim>\<open>toString()\<close>
  decodes. The texts that \<^verbatim>\<open>netsuite-sdf.ts\<close> searches for and splits at are
  ASCII; a byte below 128 never is a part of the encoding of another character,
  so that searching and splitting on the bytes is searching and splitting on the
  characters. The functions of this section are the ones of \<^verbatim>\<open>String.prototype\<close>
  that the class uses.
\<close>

definition newline :: char where
  "newline = CHR 0x0A"

definition quote :: char where
  "quote = CHR 0x27"

text \<open>\<^verbatim>\<open>s.startsWith(p)\<close>\<close>

fun startsWith :: "string \<Rightarrow> string \<Rightarrow> bool" where
  "startsWith s [] = True"
| "startsWith [] (p # ps) = False"
| "startsWith (c # cs) (p # ps) = (c = p \<and> startsWith cs ps)"

text \<open>\<^verbatim>\<open>s.includes(t)\<close>: \<open>t\<close> starts at some position of \<open>s\<close>.\<close>

fun includes_str :: "string \<Rightarrow> string \<Rightarrow> bool" where
  "includes_str [] t = (t = [])"
| "includes_str (c # cs) t = (startsWith (c # cs) t \<or> includes_str cs t)"

text \<open>
  \<^verbatim>\<open>s.split(sep)\<close> for a separator of one character: the pieces between the
  separators, in order; the list is never empty, and \<^verbatim>\<open>''.split(sep)\<close> is \<^verbatim>\<open>['']\<close>.
\<close>

fun js_split :: "char \<Rightarrow> string \<Rightarrow> string list" where
  "js_split sep [] = [[]]"
| "js_split sep (c # cs) =
     (if c = sep then [] # js_split sep cs
      else (case js_split sep cs of
              [] \<Rightarrow> [[c]]
            | l # ls \<Rightarrow> (c # l) # ls))"

text \<open>
  \<^verbatim>\<open>s.trim()\<close> removes the white space and the line terminators of ECMAScript
  at both ends: TAB, LF, VT, FF, CR, SPACE, U+00A0, U+1680, U+2000 to U+200A,
  U+2028, U+2029, U+202F, U+205F, U+3000 and U+FEFF. These are their encodings
  in UTF-8.
\<close>

definition white_space :: "string list" where
  "white_space =
     [[CHR 0x09], [CHR 0x0A], [CHR 0x0B], [CHR 0x0C], [CHR 0x0D], [CHR 0x20],
      [CHR 0xC2, CHR 0xA0],
      [CHR 0xE1, CHR 0x9A, CHR 0x80],
      [CHR 0xE2, CHR 0x80, CHR 0x80], [CHR 0xE2, CHR 0x80, CHR 0x81],
      [CHR 0xE2, CHR 0x80, CHR 0x82], [CHR 0xE2, CHR 0x80, CHR 0x83],
      [CHR 0xE2, CHR 0x80, CHR 0x84], [CHR 0xE2, CHR 0x80, CHR 0x85],
      [CHR 0xE2, CHR 0x80, CHR 0x86], [CHR 0xE2, CHR 0x80, CHR 0x87],
      [CHR 0xE2, CHR 0x80, CHR 0x88], [CHR 0xE2, CHR 0x80, CHR 0x89],
      [CHR 0xE2, CHR 0x80, CHR 0x8A],
      [CHR 0xE2, CHR 0x80, CHR 0xA8], [CHR 0xE2, CHR 0x80, CHR 0xA9],
      [CHR 0xE2, CHR 0x80, CHR 0xAF],
      [CHR 0xE2, CHR 0x81, CHR 0x9F],
      [CHR 0xE3, CHR 0x80, CHR 0x80],
      [CHR 0xEF, CHR 0xBB, CHR 0xBF]]"

text \<open>
  Taking away, at the front of \<open>s\<close>, one of the sequences of \<open>W\<close> after the
  other, until \<open>s\<close> starts with none of them.
\<close>

function strip_seqs :: "string list \<Rightarrow> string \<Rightarrow> string" where
  "strip_seqs W s =
     (case find (\<lambda>w. w \<noteq> [] \<and> startsWith s w) W of
        None \<Rightarrow> s
      | Some w \<Rightarrow> strip_seqs W (drop (length w) s))"
  by pat_completeness auto
termination
proof (relation "measure (\<lambda>(W, s). length s)")
  show "wf (measure (\<lambda>(W, s). length s))" by simp
next
  fix W :: "string list" and s w :: string
  assume "find (\<lambda>w. w \<noteq> [] \<and> startsWith s w) W = Some w"
  then have "w \<noteq> []" and "startsWith s w" by (auto simp: find_Some_iff)
  then have "s \<noteq> []" by (cases s; cases w) auto
  with \<open>w \<noteq> []\<close> show "((W, drop (length w) s), (W, s)) \<in> measure (\<lambda>(W, s). length s)"
    by simp
qed

declare strip_seqs.simps [simp del]

definition trimStart :: "string \<Rightarrow> string" where
  "trimStart s = strip_seqs white_space s"

definition trimEnd :: "string \<Rightarrow> string" where
  "trimEnd s = rev (strip_seqs (map rev white_space) (rev s))"

definition js_trim :: "string \<Rightarrow> string" where
  "js_trim s = trimEnd (trimStart s)"

section \<open>What the extension does to the outside\<close>

text \<open>
  The calls into the editor, the subprocess and the temporary directory are
  recorded, in the order in which they are made, as a list of events.
\<close>

datatype event =
    ShowErrorMessage string
  | ShowInformationMessage string
  | ShowInputBox string
  | OutputShow
  | OutputAppend string
  | StdinNext string
  | Spawn "string list" string
  | RemoveCallback string
  | TerminalSendText string
  | WriteFile string

section \<open>The commands of the command line tool\<close>

text \<open>
  The enumeration \<^verbatim>\<open>CLICommand\<close> is declared in \<^verbatim>\<open>cli-command.ts\<close>; its members
  are the ones \<^verbatim>\<open>netsuite-sdf.ts\<close> names. The string value of a member (the
  subcommand handed to \<^verbatim>\<open>sdfcli\<close>) is a parameter of the model wherever it is
  needed.
\<close>

datatype CLICommand =
    AddDependencies | CreateProject | Deploy | ImportBundle | ImportFiles
  | ImportObjects | ListBundles | ListConfiguration | ListFiles
  | ListMissingDependencies | ListObjects | Preview | Update
  | UpdateCustomRecordsWithInstances | Validate

section \<open>The handlers of one output line\<close>

definition production_warning :: string where
  "production_warning =
     ''WARNING! You are deploying to a Production account, enter YES to continue''"

definition deploy_prompt :: string where
  "deploy_prompt = ''Please type '' @ [quote] @ ''Deploy'' @ [quote]
                   @ '' to deploy to production.''"

definition YES :: string where
  "YES = ''YES'' @ [newline]"

definition NO :: string where
  "NO = ''NO'' @ [newline]"

text \<open>
  \<^verbatim>\<open>handleStdIn(line, command, stdinSubject)\<close>. The \<^verbatim>\<open>switch (true)\<close> takes the
  first case whose test holds. \<open>answer\<close> is what \<^verbatim>\<open>showInputBox\<close> resolves to
  (\<open>None\<close> when the box is dismissed); it is only looked at in the first case.
  The result is the list of calls made.
\<close>

definition handleStdIn :: "string \<Rightarrow> CLICommand \<Rightarrow> string option \<Rightarrow> event list" where
  "handleStdIn line command answer =
     (if includes_str line production_warning then
        ShowInputBox deploy_prompt #
        (if answer = Some ''Deploy'' then [StdinNext YES]
         else [OutputAppend (''Cancelling deployment.'' @ [newline]), StdinNext NO])
      else if includes_str line ''Type YES to continue''
            \<or> includes_str line ''enter YES to continue''
            \<or> includes_str line ''Type YES to update the manifest file''
            \<or> includes_str line ''Proceed with deploy?''
            \<or> includes_str line ''Type Yes (Y) to continue.''
      then [StdinNext YES]
      else [])"

definition record_missing_message :: string where
  "record_missing_message =
     ''Custom record does not exist for updating. Please Import Object first.''"

definition installed_message :: string where
  "installed_message = ''Installation of deployment was completed.''"

text \<open>
  \<^verbatim>\<open>handleStdOut(line, command)\<close>. The first case ends with \<^verbatim>\<open>break\<close>; the second
  has no \<^verbatim>\<open>break\<close>, so it runs on into the body of the third.
\<close>

definition handleStdOut :: "string \<Rightarrow> CLICommand \<Rightarrow> event list" where
  "handleStdOut line command =
     (if includes_str line ''That record does not exist.'' then []
      else if includes_str line ''does not exist.'' then
        [ShowErrorMessage record_missing_message, ShowInformationMessage installed_message]
      else if includes_str line ''Installation COMPLETE'' then
        [ShowInformationMessage installed_message]
      else [])"

text \<open>
  \<^verbatim>\<open>mapCommandOutput(command, line)\<close>. \<^verbatim>\<open>line.split(':')[1]\<close> is the second piece
  of the split; it exists whenever the line has a colon.
\<close>

definition mapCommandOutput :: "CLICommand \<Rightarrow> string \<Rightarrow> string" where
  "mapCommandOutput command line =
     (case command of
        ListObjects \<Rightarrow> (if includes_str line '':'' then js_split (CHR '':'') line ! 1 else line)
      | _ \<Rightarrow> line)"

section \<open>The stream of output lines\<close>

text \<open>
  The observable returned by \<^verbatim>\<open>spawn\<close> delivers the output of the subprocess in
  chunks and then completes, or fails (an exit code other than zero, or an error
  of the stream). The answers are for the input boxes that are opened during the
  run, in the order in which the boxes are opened: the number of further chunks
  that are handled before the box is answered, and what the user types (\<open>None\<close>
  for a box that is dismissed). A box beyond the end of the list is not answered
  while the command runs.
\<close>

datatype ending = Completed | Failed

record process =
  chunks :: "string list"
  ending :: ending
  answers :: "(nat \<times> string option) list"

text \<open>
  The handler of one chunk in \<^verbatim>\<open>streamWrapper\<close>: \<open>acc\<close> is the text kept from
  the chunks before. The result is the lines handed to \<^verbatim>\<open>observer.next\<close> and
  the new value of \<open>acc\<close>.
\<close>

definition on_value :: "string \<Rightarrow> string \<Rightarrow> string list \<times> string" where
  "on_value acc val =
     (let lines = js_split newline (acc @ val)
      in (butlast lines, last lines))"

fun emitted_from :: "string \<Rightarrow> string list \<Rightarrow> string list" where
  "emitted_from acc [] = []"
| "emitted_from acc (val # vals) =
     (case on_value acc val of (lines, acc') \<Rightarrow> lines @ emitted_from acc' vals)"

fun pending_from :: "string \<Rightarrow> string list \<Rightarrow> string" where
  "pending_from acc [] = acc"
| "pending_from acc (val # vals) = pending_from (snd (on_value acc val)) vals"

text \<open>The lines handed on, chunk by chunk.\<close>

fun emitted_by_chunk :: "string \<Rightarrow> string list \<Rightarrow> string list list" where
  "emitted_by_chunk acc [] = []"
| "emitted_by_chunk acc (val # vals) =
     (case on_value acc val of (lines, acc') \<Rightarrow> lines # emitted_by_chunk acc' vals)"

datatype notification = Next string | Error | Complete

text \<open>
  What \<^verbatim>\<open>streamWrapper\<close> hands to its observer: \<open>acc\<close> starts empty; the error
  and the completion of the source are passed on as they are.
\<close>

definition streamWrapper :: "string list \<Rightarrow> ending \<Rightarrow> notification list" where
  "streamWrapper vals e =
     map Next (emitted_from [] vals) @ [case e of Completed \<Rightarrow> Complete | Failed \<Rightarrow> Error]"

text \<open>The test of the \<^verbatim>\<open>filter\<close> operator is the negation of this.\<close>

definition is_noise :: "string \<Rightarrow> bool" where
  "is_noise line =
     (line = []
      \<or> startsWith line ''[INFO]''
      \<or> startsWith line ''SuiteCloud Development Framework CLI''
      \<or> startsWith line ''Done.''
      \<or> startsWith line ''Using '')"

text \<open>
  \<^verbatim>\<open>handleStdIn\<close> is not awaited by the \<^verbatim>\<open>do\<close> operator that calls it. The calls
  it makes before its \<^verbatim>\<open>await\<close> are made at once: for a line with the warning
  this is the opening of the input box, for every other line it is all of its
  calls. The calls after the \<^verbatim>\<open>await\<close> are made when the box is answered.
\<close>

definition stdin_now :: "string \<Rightarrow> CLICommand \<Rightarrow> event list" where
  "stdin_now line command =
     (if includes_str line production_warning then take 1 (handleStdIn line command None)
      else handleStdIn line command None)"

definition stdin_later :: "string \<Rightarrow> CLICommand \<Rightarrow> string option \<Rightarrow> event list" where
  "stdin_later line command answer =
     (if includes_str line production_warning then drop 1 (handleStdIn line command answer)
      else [])"

text \<open>
  The three \<^verbatim>\<open>do\<close> operators, for one line: the line is appended to the output
  channel when \<^verbatim>\<open>doShowOutput\<close> is set, then \<^verbatim>\<open>handleStdIn\<close> is called and runs up
  to its \<^verbatim>\<open>await\<close>, then \<^verbatim>\<open>handleStdOut\<close> is called.
\<close>

definition tap_line :: "bool \<Rightarrow> CLICommand \<Rightarrow> string \<Rightarrow> event list" where
  "tap_line doShow command line =
     (if doShow then [OutputAppend (line @ [newline])] else [])
     @ stdin_now line command
     @ handleStdOut line command"

text \<open>
  The calls that wait for an answer: with each, the number of chunks still to be
  handled before the answer comes.
\<close>

type_synonym waiting = "(nat \<times> event list) list"

text \<open>
  The lines of one chunk are handled one after the other without a break. The
  result is the calls made, the calls that wait for the boxes opened by these
  lines, and the answers not yet used.
\<close>

fun tap_lines :: "bool \<Rightarrow> CLICommand \<Rightarrow> (nat \<times> string option) list \<Rightarrow> string list
    \<Rightarrow> event list \<times> waiting \<times> (nat \<times> string option) list" where
  "tap_lines doShow command as [] = ([], [], as)"
| "tap_lines doShow command as (line # lines) =
     (if includes_str line production_warning then
        (case as of
           [] \<Rightarrow>
             (case tap_lines doShow command [] lines of
                (evs, ws, as') \<Rightarrow> (tap_line doShow command line @ evs, ws, as'))
         | (d, answer) # rest \<Rightarrow>
             (case tap_lines doShow command rest lines of
                (evs, ws, as') \<Rightarrow>
                  (tap_line doShow command line @ evs,
                   (d, stdin_later line command answer) # ws, as')))
      else
        (case tap_lines doShow command as lines of
           (evs, ws, as') \<Rightarrow> (tap_line doShow command line @ evs, ws, as')))"

text \<open>
  Between two chunks: the calls whose answer has come are made, in the order in
  which the boxes were opened; the others wait on.
\<close>

definition due :: "waiting \<Rightarrow> event list" where
  "due ws = concat (map snd (filter (\<lambda>(d, evs). d = 0) ws))"

definition later :: "waiting \<Rightarrow> waiting" where
  "later ws = map (\<lambda>(d, evs). (d - 1, evs)) (filter (\<lambda>(d, evs). 0 < d) ws)"

text \<open>
  The calls made while the stream runs, for the lines of the chunks. The calls
  that still wait when the stream ends are not made while the command runs.
\<close>

fun taps :: "bool \<Rightarrow> CLICommand \<Rightarrow> waiting \<Rightarrow> (nat \<times> string option) list
    \<Rightarrow> string list list \<Rightarrow> event list" where
  "taps doShow command ws as [] = []"
| "taps doShow command ws as (lines # rest) =
     (case tap_lines doShow command as lines of
        (evs, opened, as') \<Rightarrow>
          evs @ due (ws @ opened) @ taps doShow command (later (ws @ opened)) as' rest)"

text \<open>
  The operators \<^verbatim>\<open>filter\<close>, \<^verbatim>\<open>map\<close> and \<^verbatim>\<open>reduce\<close>: the value the promise
  resolves to when the stream completes.
\<close>

definition collect :: "CLICommand \<Rightarrow> string list \<Rightarrow> string list" where
  "collect command lines =
     foldl (\<lambda>acc curr. acc @ [curr]) []
       (map (mapCommandOutput command) (filter (\<lambda>line. \<not> is_noise line) lines))"

section \<open>Paths\<close>

text \<open>
  \<^verbatim>\<open>path.join\<close> and \<^verbatim>\<open>path.normalize\<close> of Node.js, for POSIX paths: the
  arguments that are not empty are joined with a slash, and the result is
  normalised (empty and \<^verbatim>\<open>.\<close> segments are dropped, a \<^verbatim>\<open>..\<close> segment removes the
  segment before it). An absolute second argument does not replace the first.
\<close>

fun join_with :: "char \<Rightarrow> string list \<Rightarrow> string" where
  "join_with sep [] = []"
| "join_with sep [x] = x"
| "join_with sep (x # y # ys) = x @ sep # join_with sep (y # ys)"

fun normalize_segments :: "bool \<Rightarrow> string list \<Rightarrow> string list \<Rightarrow> string list" where
  "normalize_segments allowAboveRoot res [] = res"
| "normalize_segments allowAboveRoot res (seg # segs) =
     (if seg = [] \<or> seg = ''.'' then normalize_segments allowAboveRoot res segs
      else if seg = ''..'' then
        (if res \<noteq> [] \<and> last res \<noteq> ''..''
         then normalize_segments allowAboveRoot (butlast res) segs
         else if allowAboveRoot
         then normalize_segments allowAboveRoot (res @ [''..'']) segs
         else normalize_segments allowAboveRoot res segs)
      else normalize_segments allowAboveRoot (res @ [seg]) segs)"

definition path_normalize :: "string \<Rightarrow> string" where
  "path_normalize p =
     (case p of
        [] \<Rightarrow> ''.''
      | c # cs \<Rightarrow>
          (let isAbsolute = (c = CHR ''/'');
               trailingSeparator = (last p = CHR ''/'');
               q = join_with (CHR ''/'')
                     (normalize_segments (\<not> isAbsolute) [] (js_split (CHR ''/'') p))
           in if q = [] then (if isAbsolute then ''/'' else if trailingSeparator then ''./'' else ''.'')
              else (if isAbsolute then ''/'' else []) @ q
                   @ (if trailingSeparator then ''/'' else [])))"

definition path_join :: "string list \<Rightarrow> string" where
  "path_join args =
     (let joined = join_with (CHR ''/'') (filter (\<lambda>arg. arg \<noteq> []) args)
      in if joined = [] then ''.'' else path_normalize joined)"

section \<open>The state of the extension\<close>

text \<open>
  \<^verbatim>\<open>Environment\<close>, \<^verbatim>\<open>SDFConfig\<close> and \<^verbatim>\<open>CustomObject\<close> are declared in
  \<^verbatim>\<open>environment.ts\<close>, \<^verbatim>\<open>sdf-config.ts\<close> and \<^verbatim>\<open>custom-object.ts\<close>; the fields are
  the ones \<^verbatim>\<open>netsuite-sdf.ts\<close> reads and writes.
\<close>

record Environment =
  authid :: string

record SDFConfig =
  environments :: "Environment list"

record CustomObject =
  object_type :: string
  object_label :: string
  object_destination :: string

text \<open>
  The fields of the class \<^verbatim>\<open>NetSuiteSDF\<close>. An \<^verbatim>\<open>undefined\<close> or \<^verbatim>\<open>null\<close> field is
  \<open>None\<close>. \<open>tempDir\<close> holds the \<^verbatim>\<open>name\<close> of the directory made by
  \<^verbatim>\<open>tmp.dirSync\<close>; \<open>intervalId\<close> and \<open>sdfcli\<close> say whether the timer and the
  observable of the subprocess are set. \<open>statusBar_text\<close> is the text of the
  status bar item, and \<open>events\<close> the calls made so far. The extension is taken
  to be initialised (the status bar item and the output channel exist), and
  \<open>rootPath\<close> to be a string.
\<close>

record sdf =
  activeEnvironment :: "Environment option"
  addDefaultParameters :: bool
  collectedData :: "string list"
  currentObject :: "CustomObject option"
  doAddProjectParameter :: bool
  doReturnData :: bool
  doShowOutput :: bool
  intervalId :: bool
  rootPath :: string
  savedStatus :: "string option"
  sdfcli :: bool
  sdfConfig :: "SDFConfig option"
  sdfCliIsInstalled :: bool
  statusBar_text :: string
  tempDir :: "string option"
  events :: "event list"

text \<open>
  What the editor and the operating system answer: the path of the first
  workspace folder, the output of \<^verbatim>\<open>sdfcli manageauth -list\<close> as \<^verbatim>\<open>toString()\<close>
  gives it (\<open>None\<close> when \<^verbatim>\<open>execSync\<close> throws), the choice made in a quick pick,
  and the string values of the members of \<^verbatim>\<open>CLICommand\<close>.
\<close>

record host =
  workspaceFolder :: "string option"
  manageauth_list :: "string option"
  quickPick :: "string list \<Rightarrow> string option"
  token :: "CLICommand \<Rightarrow> string"

datatype error = ExecSyncFailed | ReadFileFailed

definition say :: "event \<Rightarrow> sdf \<Rightarrow> sdf" where
  "say e s = s\<lparr>events := events s @ [e]\<rparr>"

definition not_found_message :: string where
  "not_found_message = [quote] @ ''sdfcli'' @ [quote]
     @ '' not found in path. Please restart VS Code if you installed it.''"

definition no_authids_message :: string where
  "no_authids_message =
     ''No authids detected.  Please configure an authid for your environment''"

definition statusBarDefault :: "sdf \<Rightarrow> string" where
  "statusBarDefault s =
     (case activeEnvironment s of
        Some env \<Rightarrow> ''SDF ('' @ authid env @ '')''
      | None \<Rightarrow> ''SDF'')"

text \<open>\<^verbatim>\<open>clearStatus()\<close>: the empty string is falsy, as \<^verbatim>\<open>undefined\<close> is.\<close>

definition clearStatus :: "sdf \<Rightarrow> sdf" where
  "clearStatus s =
     (case savedStatus s of
        Some t \<Rightarrow>
          (if t \<noteq> [] then s\<lparr>statusBar_text := t, savedStatus := None\<rparr>
           else s\<lparr>statusBar_text := statusBarDefault s\<rparr>)
      | None \<Rightarrow> s\<lparr>statusBar_text := statusBarDefault s\<rparr>)"

text \<open>\<^verbatim>\<open>cleanup()\<close>\<close>

definition cleanup :: "sdf \<Rightarrow> sdf" where
  "cleanup s =
     (let s1 = (if \<not> doReturnData s then s\<lparr>collectedData := [], currentObject := None\<rparr> else s);
          s2 = clearStatus (s1\<lparr>intervalId := False\<rparr>);
          s3 = s2\<lparr>doAddProjectParameter := True, doReturnData := False, intervalId := False,
                  sdfcli := False, doShowOutput := True\<rparr>;
          s4 = (case tempDir s3 of
                  Some name \<Rightarrow> (if name \<noteq> [] then say (RemoveCallback name) s3 else s3)
                | None \<Rightarrow> s3)
      in s4\<lparr>tempDir := None, addDefaultParameters := True\<rparr>)"

text \<open>
  \<^verbatim>\<open>showStatus()\<close>. The timer it starts rewrites the text of the status bar
  every 500 ms from \<open>savedStatus\<close>, until \<^verbatim>\<open>clearInterval\<close>; the text in between
  is not modelled.
\<close>

definition showStatus :: "sdf \<Rightarrow> sdf" where
  "showStatus s = s\<lparr>savedStatus := Some (statusBar_text s), intervalId := True\<rparr>"

section \<open>The registry of environments\<close>

text \<open>
  The branch \<^verbatim>\<open>if (force || !this.sdfConfig)\<close> of \<^verbatim>\<open>getConfig\<close>: the listing is
  trimmed and split into lines; with fewer than two lines the error is shown and
  \<open>sdfConfig\<close> is left as it is.
\<close>

definition parse_line :: "string \<Rightarrow> Environment" where
  "parse_line line = \<lparr>authid = js_trim (js_split (CHR ''|'') line ! 0)\<rparr>"

definition load_registry :: "sdf \<Rightarrow> host \<Rightarrow> error + sdf" where
  "load_registry s h =
     (case manageauth_list h of
        None \<Rightarrow> Inl ExecSyncFailed
      | Some outputBuffer \<Rightarrow>
          (let lines = js_split newline (js_trim outputBuffer)
           in if length lines < 2 then Inr (say (ShowErrorMessage no_authids_message) s)
              else Inr (s\<lparr>sdfConfig := Some \<lparr>environments = map parse_line (drop 1 lines)\<rparr>\<rparr>)))"

text \<open>
  The keys of the object that \<^verbatim>\<open>_selectEnvironment\<close> builds with \<^verbatim>\<open>reduce\<close>, as
  \<^verbatim>\<open>Object.keys\<close> lists them: every \<open>authid\<close> once; first the ones that are array
  indices (the decimal numeral, with no leading zero, of a number below
  \<open>2\<^sup>3\<^sup>2 - 1\<close>) by ascending number, then the others in the order of first
  appearance.
\<close>

fun keys_of :: "string list \<Rightarrow> string list \<Rightarrow> string list" where
  "keys_of seen [] = seen"
| "keys_of seen (k # ks) = (if k \<in> set seen then keys_of seen ks else keys_of (seen @ [k]) ks)"

fun decimal :: "nat \<Rightarrow> string \<Rightarrow> nat" where
  "decimal n [] = n"
| "decimal n (c # cs) = decimal (10 * n + (of_char c - 48)) cs"

definition array_index :: "string \<Rightarrow> bool" where
  "array_index k =
     (k \<noteq> [] \<and> list_all (\<lambda>c. c \<in> set ''0123456789'') k
      \<and> (k = ''0'' \<or> \<not> startsWith k ''0'')
      \<and> decimal 0 k < 4294967295)"

definition object_keys :: "string list \<Rightarrow> string list" where
  "object_keys ks =
     (let own = keys_of [] ks
      in sort_key (decimal 0) (filter array_index own)
         @ filter (\<lambda>k. \<not> array_index k) own)"

text \<open>
  \<^verbatim>\<open>_selectEnvironment\<close>, the inner function of \<^verbatim>\<open>selectEnvironment\<close>, for a
  registry that is set. Every value of the object has the key as its \<open>authid\<close>.
  The \<^verbatim>\<open>catch\<close> is not reached: nothing in the \<^verbatim>\<open>try\<close> throws on an initialised
  extension.
\<close>

definition select_from :: "SDFConfig \<Rightarrow> sdf \<Rightarrow> host \<Rightarrow> sdf" where
  "select_from config s h =
     (let environmentNames = object_keys (map authid (environments config))
      in if length environmentNames = 1 then
           (let environmentName = environmentNames ! 0;
                s1 = s\<lparr>activeEnvironment := Some \<lparr>authid = environmentName\<rparr>\<rparr>;
                s2 = s1\<lparr>statusBar_text := statusBarDefault s1\<rparr>
            in say (ShowInformationMessage
                      (''Found only one environment. Using '' @ environmentName)) s2)
         else
           (case quickPick h environmentNames of
              None \<Rightarrow> s
            | Some environmentName \<Rightarrow>
                (if environmentName = [] then s
                 else
                   (let s1 = s\<lparr>activeEnvironment :=
                                 (if environmentName \<in> set environmentNames
                                  then Some \<lparr>authid = environmentName\<rparr> else None)\<rparr>
                    in s1\<lparr>statusBar_text := statusBarDefault s1\<rparr>))))"

text \<open>
  \<^verbatim>\<open>getConfig({ force: true })\<close>, as \<^verbatim>\<open>selectEnvironment\<close> and \<^verbatim>\<open>refreshConfig\<close>
  call it.
\<close>

definition getConfig_forced :: "sdf \<Rightarrow> host \<Rightarrow> error + sdf" where
  "getConfig_forced s h =
     (if \<not> sdfCliIsInstalled s then Inr (say (ShowErrorMessage not_found_message) s)
      else (case workspaceFolder h of
              None \<Rightarrow> Inr (say (ShowErrorMessage ''Unable to determine workspace folder'') s)
            | Some fsPath \<Rightarrow> load_registry (s\<lparr>rootPath := fsPath\<rparr>) h))"

text \<open>\<^verbatim>\<open>selectEnvironment()\<close>\<close>

definition selectEnvironment :: "sdf \<Rightarrow> host \<Rightarrow> error + sdf" where
  "selectEnvironment s h =
     (if \<not> sdfCliIsInstalled s then Inr (say (ShowErrorMessage not_found_message) s)
      else (case sdfConfig s of
              Some config \<Rightarrow> Inr (select_from config s h)
            | None \<Rightarrow> getConfig_forced s h))"

text \<open>\<^verbatim>\<open>getConfig({ force })\<close>\<close>

definition getConfig :: "sdf \<Rightarrow> host \<Rightarrow> bool \<Rightarrow> error + sdf" where
  "getConfig s h force =
     (if \<not> sdfCliIsInstalled s then Inr (say (ShowErrorMessage not_found_message) s)
      else (case workspaceFolder h of
              None \<Rightarrow> Inr (say (ShowErrorMessage ''Unable to determine workspace folder'') s)
            | Some fsPath \<Rightarrow>
                (let s1 = s\<lparr>rootPath := fsPath\<rparr>
                 in if force \<or> sdfConfig s1 = None then load_registry s1 h
                    else if activeEnvironment s1 = None then selectEnvironment s1 h
                    else Inr s1)))"

text \<open>\<^verbatim>\<open>refreshConfig()\<close>\<close>

definition refreshConfig :: "sdf \<Rightarrow> host \<Rightarrow> error + sdf" where
  "refreshConfig s h = getConfig s h True"

text \<open>
  \<^verbatim>\<open>authenticate()\<close>: \<open>answer\<close> is the name typed into the input box. The
  registry is set to \<^verbatim>\<open>null\<close>, so that the next \<^verbatim>\<open>getConfig\<close> loads it again.
\<close>

definition authenticate :: "sdf \<Rightarrow> string option \<Rightarrow> sdf" where
  "authenticate s answer =
     (if \<not> sdfCliIsInstalled s then say (ShowErrorMessage not_found_message) s
      else
        (let s1 = say (ShowInputBox
                   ''Enter an environment name (authid) that you will authenticate in the browser (i.e. test, production)'') s
         in case answer of
              None \<Rightarrow> s1
            | Some a \<Rightarrow>
                (if a = [] then s1
                 else
                   (let s2 = say (ShowInformationMessage
                               (''Your browser will open to authenticate to NetSuite.  Make sure to select your ''
                                @ [quote] @ a @ [quote] @ '' environment before clicking ''
                                @ [quote] @ ''Allow'' @ [quote] @ ''.'')) s1;
                        s3 = s2\<lparr>sdfConfig := None\<rparr>
                    in say (TerminalSendText (''sdfcli authenticate -authid '' @ a)) s3))))"

section \<open>Running a command\<close>

text \<open>The arguments built in \<^verbatim>\<open>runCommand\<close>; every \<open>arg\<close> is split at its spaces.\<close>

definition commandArray :: "sdf \<Rightarrow> host \<Rightarrow> Environment \<Rightarrow> string \<Rightarrow> CLICommand \<Rightarrow> string list
    \<Rightarrow> string list" where
  "commandArray s h env workPath command args =
     [token h command]
     @ (if addDefaultParameters s then [''-authid'', authid env] else [])
     @ (if doAddProjectParameter s then [''-p'', workPath] else [])
     @ concat (map (js_split (CHR '' '')) args)"

text \<open>
  \<^verbatim>\<open>runCommand(command, ...args)\<close> with the subprocess \<open>p\<close>. The result is the new
  state and the value returned (\<open>None\<close> for \<^verbatim>\<open>undefined\<close>). When the promise of
  the collected lines is rejected, the \<^verbatim>\<open>catch\<close> calls \<^verbatim>\<open>cleanup\<close>, and
  \<^verbatim>\<open>cleanup\<close> is called again after the \<^verbatim>\<open>await\<close>.
\<close>

definition runCommand :: "sdf \<Rightarrow> host \<Rightarrow> process \<Rightarrow> CLICommand \<Rightarrow> string list
    \<Rightarrow> error + (sdf \<times> string list option)" where
  "runCommand s h p command args =
     (case getConfig s h False of
        Inl e \<Rightarrow> Inl e
      | Inr s1 \<Rightarrow>
          (case (sdfConfig s1, activeEnvironment s1) of
             (Some config, Some env) \<Rightarrow>
               (let s2 = (if doShowOutput s1 then say OutputShow s1 else s1);
                    workPath = (case tempDir s2 of
                                  None \<Rightarrow> rootPath s2
                                | Some name \<Rightarrow> path_join [rootPath s2, name]);
                    argv = commandArray s2 h env workPath command args;
                    s3 = (say (Spawn argv workPath) s2)\<lparr>sdfcli := True\<rparr>;
                    s4 = showStatus s3;
                    lines = emitted_from [] (chunks p);
                    s5 = s4\<lparr>events := events s4
                                @ taps (doShowOutput s4) command [] (answers p)
                                    (emitted_by_chunk [] (chunks p))\<rparr>
                in case ending p of
                     Completed \<Rightarrow> Inr (cleanup s5, Some (collect command lines))
                   | Failed \<Rightarrow> Inr (cleanup (cleanup s5), None))
           | _ \<Rightarrow> Inr (s1, None)))"

section \<open>The deployment manifest\<close>

text \<open>
  The object that \<^verbatim>\<open>xml2js\<close> makes of \<^verbatim>\<open>deploy.xml\<close>: under \<^verbatim>\<open>deploy\<close>, the list
  of the \<^verbatim>\<open>files\<close> elements and the list of the \<^verbatim>\<open>objects\<close> elements, each
  element with the texts of its \<^verbatim>\<open>path\<close> children. \<^verbatim>\<open><deploy></deploy>\<close> has
  neither. Building the XML from the object and parsing it again is taken to give
  the object back.
\<close>

record DeployXml =
  files :: "string list list"
  objects :: "string list list"

definition defaultXml :: DeployXml where
  "defaultXml = \<lparr>files = [], objects = []\<rparr>"

text \<open>The two values of \<^verbatim>\<open>xmlPath\<close>: \<^verbatim>\<open>deploy.files[0].path\<close> and \<^verbatim>\<open>deploy.objects[0].path\<close>.\<close>

datatype xmlPath = FilesPath | ObjectsPath

definition groups :: "DeployXml \<Rightarrow> xmlPath \<Rightarrow> string list list" where
  "groups deployJs xp = (case xp of FilesPath \<Rightarrow> files deployJs | ObjectsPath \<Rightarrow> objects deployJs)"

text \<open>\<^verbatim>\<open>_.get(deployJs, xmlPath, [])\<close>\<close>

definition get_paths :: "DeployXml \<Rightarrow> xmlPath \<Rightarrow> string list" where
  "get_paths deployJs xp = (case groups deployJs xp of [] \<Rightarrow> [] | g # gs \<Rightarrow> g)"

text \<open>\<^verbatim>\<open>_.set(deployJs, xmlPath, elements)\<close>\<close>

definition set_paths :: "DeployXml \<Rightarrow> xmlPath \<Rightarrow> string list \<Rightarrow> DeployXml" where
  "set_paths deployJs xp elements =
     (let gs' = (case groups deployJs xp of [] \<Rightarrow> [elements] | g # gs \<Rightarrow> elements # gs)
      in case xp of
           FilesPath \<Rightarrow> deployJs\<lparr>files := gs'\<rparr>
         | ObjectsPath \<Rightarrow> deployJs\<lparr>objects := gs'\<rparr>)"

text \<open>
  The manifests on disk, by path (\<open>None\<close> where no file exists); the files are
  taken to be well-formed XML.
\<close>

type_synonym filesystem = "string \<rightharpoonup> DeployXml"

text \<open>
  What the first part of \<^verbatim>\<open>addFileToDeploy\<close> finds out about the current file:
  the three tests, whether a compiled JavaScript file was matched, and the path
  with the root replaced by \<^verbatim>\<open>~\<close>.
\<close>

record target =
  isFileInFileCabinet :: bool
  isJavaScript :: bool
  isObject :: bool
  matchedJavaScriptFile :: bool
  relativePath :: string

definition already_exists_message :: "target \<Rightarrow> string" where
  "already_exists_message t =
     (if isObject t then ''Object'' else ''File'') @ '' already exists in deploy.xml.''"

definition added_message :: "target \<Rightarrow> string" where
  "added_message t =
     ''Added '' @ (if matchedJavaScriptFile t then ''matching compiled JavaScript'' else [])
     @ '' '' @ (if isObject t then ''object'' else ''file'') @ '' to deploy.xml.''"

text \<open>
  \<^verbatim>\<open>addFileToDeploy\<close> from \<^verbatim>\<open>const xmlPath\<close> on, in a state whose \<open>rootPath\<close> is
  set. When there is no manifest, \<^verbatim>\<open>setDefaultDeployXml\<close> is called; it starts
  the write of the default manifest and does not wait for it, and \<^verbatim>\<open>openFile\<close>
  follows at once. \<open>written\<close> says whether the default manifest is on disk when
  \<^verbatim>\<open>openFile\<close> reads: if it is not, the read finds no file and the promise of
  \<^verbatim>\<open>openFile\<close> is rejected. Otherwise the manifest is read, and written back with
  the path appended unless the list has the path already. The result is the
  state when the writes that were started are done and the message is shown.
\<close>

definition addFileToDeploy :: "sdf \<Rightarrow> filesystem \<Rightarrow> bool \<Rightarrow> target
    \<Rightarrow> error + (sdf \<times> filesystem)" where
  "addFileToDeploy s fs written t =
     (let deployPath = path_join [rootPath s, ''deploy.xml''];
          xp = (if isFileInFileCabinet t \<or> isJavaScript t then FilesPath else ObjectsPath);
          (s1, fs1, deployXml) =
            (case fs deployPath of
               Some d \<Rightarrow> (s, fs, Some d)
             | None \<Rightarrow>
                 (say (WriteFile deployPath) s, fs(deployPath \<mapsto> defaultXml),
                  if written then Some defaultXml else None))
      in case deployXml of
           None \<Rightarrow> Inl ReadFileFailed
         | Some deployJs \<Rightarrow>
             (let elements = get_paths deployJs xp
              in if relativePath t \<in> set elements
                 then Inr (say (ShowInformationMessage (already_exists_message t)) s1, fs1)
                 else
                   (let newXml = set_paths deployJs xp (elements @ [relativePath t]);
                        s2 = say (WriteFile deployPath) s1
                    in Inr (say (ShowInformationMessage (added_message t)) s2,
                            fs1(deployPath \<mapsto> newXml)))))"

section \<open>Reading the list of events and the steps of a run\<close>

text \<open>The subprocesses started, and the temporary directories removed, in order.\<close>

fun spawns :: "event list \<Rightarrow> (string list \<times> string) list" where
  "spawns [] = []"
| "spawns (Spawn argv cwd # es) = (argv, cwd) # spawns es"
| "spawns (e # es) = spawns es"

fun removals :: "event list \<Rightarrow> string list" where
  "removals [] = []"
| "removals (RemoveCallback name # es) = name # removals es"
| "removals (e # es) = removals es"

fun injections :: "event list \<Rightarrow> string list" where
  "injections [] = []"
| "injections (StdinNext t # es) = t # injections es"
| "injections (e # es) = injections es"

text \<open>Calls that wait, none of which starts a subprocess or removes a directory.\<close>

definition quiet :: "waiting \<Rightarrow> bool" where
  "quiet ws = list_all (\<lambda>(d, evs). spawns evs = [] \<and> removals evs = []) ws"

text \<open>
  The value of \<open>workPath\<close> in \<^verbatim>\<open>runCommand\<close>, and the state of \<^verbatim>\<open>runCommand\<close> when
  the stream has ended and \<^verbatim>\<open>cleanup\<close> has not yet been called, as functions of the
  state \<open>s1\<close> that \<^verbatim>\<open>getConfig\<close> leaves.
\<close>

definition workPath :: "sdf \<Rightarrow> string" where
  "workPath s =
     (case tempDir s of None \<Rightarrow> rootPath s | Some name \<Rightarrow> path_join [rootPath s, name])"

definition session :: "sdf \<Rightarrow> host \<Rightarrow> process \<Rightarrow> Environment \<Rightarrow> CLICommand \<Rightarrow> string list
    \<Rightarrow> sdf" where
  "session s1 h p env command args =
     (let s2 = (if doShowOutput s1 then say OutputShow s1 else s1);
          s3 = (say (Spawn (commandArray s2 h env (workPath s2) command args) (workPath s2)) s2)
                 \<lparr>sdfcli := True\<rparr>;
          s4 = showStatus s3
      in s4\<lparr>events := events s4
               @ taps (doShowOutput s4) command [] (answers p)
                   (emitted_by_chunk [] (chunks p))\<rparr>)"

text \<open>
  Where \<^verbatim>\<open>_generateTempDeployDirectory\<close> puts the copy of the file \<open>filepath\<close> of
  the project: it hands \<^verbatim>\<open>path.join(this.tempDir.name, filepath)\<close> to \<^verbatim>\<open>copyFile\<close>,
  which joins \<open>rootPath\<close> in front of it.
\<close>

definition copy_destination :: "sdf \<Rightarrow> string \<Rightarrow> string \<Rightarrow> string" where
  "copy_destination s name filepath = path_join [rootPath s, path_join [name, filepath]]"

text \<open>The events of a result of \<^verbatim>\<open>runCommand\<close>; none when it threw.\<close>

definition events_of :: "error + (sdf \<times> string list option) \<Rightarrow> event list" where
  "events_of r = (case r of Inl e \<Rightarrow> [] | Inr (s', v) \<Rightarrow> events s')"

section \<open>A project to run the model on\<close>

text \<open>
  A workspace at \<^verbatim>\<open>/home/u/proj\<close> with the environments \<^verbatim>\<open>a\<close> and \<^verbatim>\<open>b\<close>, of
  which \<^verbatim>\<open>a\<close> is selected; a listing of accounts that has \<^verbatim>\<open>b\<close> only; and a
  subprocess that prints three lines in two chunks.
\<close>

definition listing_b :: string where
  "listing_b = ''AuthId | Account'' @ [newline] @ ''b | 1234'' @ [newline]"

definition project_host :: host where
  "project_host =
     \<lparr>workspaceFolder = Some ''/home/u/proj'',
      manageauth_list = Some listing_b,
      quickPick = (\<lambda>names. None),
      token = (\<lambda>command. if command = Deploy then ''deploy'' else ''listfiles'')\<rparr>"

definition project_state :: sdf where
  "project_state =
     \<lparr>activeEnvironment = Some \<lparr>authid = ''a''\<rparr>,
      addDefaultParameters = True,
      collectedData = [],
      currentObject = None,
      doAddProjectParameter = True,
      doReturnData = False,
      doShowOutput = True,
      intervalId = False,
      rootPath = ''/home/u/proj'',
      savedStatus = None,
      sdfcli = False,
      sdfConfig = Some \<lparr>environments = [\<lparr>authid = ''a''\<rparr>, \<lparr>authid = ''b''\<rparr>]\<rparr>,
      sdfCliIsInstalled = True,
      statusBar_text = ''SDF (a)'',
      tempDir = None,
      events = []\<rparr>"

definition project_process :: "ending \<Rightarrow> process" where
  "project_process e =
     \<lparr>chunks = [''[INFO] x'' @ [newline] @ ''Proceed with'', '' deploy?'' @ [newline] @ ''ok'' @ [newline]],
      ending = e,
      answers = []\<rparr>"

section \<open>Notions used in the statements\<close>

text \<open>
  A text that is made of sequences of \<open>W\<close> only; a list of sequences none of
  which is empty or the beginning of another one; and the bytes of the sequences
  of \<open>W\<close> after their first byte.
\<close>

definition concat_of :: "string list \<Rightarrow> string \<Rightarrow> bool" where
  "concat_of W s = (\<exists>ws. set ws \<subseteq> set W \<and> s = concat ws)"

definition prefix_free :: "string list \<Rightarrow> bool" where
  "prefix_free W = list_all (\<lambda>w. w \<noteq> [] \<and> list_all (\<lambda>w'. startsWith w' w \<longrightarrow> w' = w) W) W"

definition inner_bytes :: "string list \<Rightarrow> char list" where
  "inner_bytes W = concat (map tl W)"

text \<open>
  White space: a text made of white space characters only (the empty text is
  one). A text starts, or ends, with white space when one of the characters is at
  its start, or at its end. \<open>t\<close> is \<open>s\<close> trimmed when \<open>s\<close> is \<open>t\<close> with white space
  before and after it, and \<open>t\<close> neither starts nor ends with white space. A line of
  the listing of accounts is a text that is not white space and has no newline in
  it.
\<close>

definition blank :: "string \<Rightarrow> bool" where
  "blank s = (\<exists>ws. set ws \<subseteq> set white_space \<and> s = concat ws)"

definition white_start :: "string \<Rightarrow> bool" where
  "white_start s = list_ex (\<lambda>w. startsWith s w) white_space"

definition white_end :: "string \<Rightarrow> bool" where
  "white_end s = list_ex (\<lambda>w. startsWith (rev s) (rev w)) white_space"

definition trimmed :: "string \<Rightarrow> string \<Rightarrow> bool" where
  "trimmed s t = (\<exists>pre post. s = pre @ t @ post \<and> blank pre \<and> blank post
                   \<and> \<not> white_start t \<and> \<not> white_end t)"

definition is_row :: "string \<Rightarrow> bool" where
  "is_row l = (\<not> blank l \<and> newline \<notin> set l)"

text \<open>
  The path of the manifest, the list that \<^verbatim>\<open>addFileToDeploy\<close> chooses for a
  target, the other list, and the manifest that \<^verbatim>\<open>addFileToDeploy\<close> reads: the one
  on disk, or the default one that it writes first when there is none.
\<close>

definition deployPath :: "sdf \<Rightarrow> string" where
  "deployPath s = path_join [rootPath s, ''deploy.xml'']"

definition xmlPath_of :: "target \<Rightarrow> xmlPath" where
  "xmlPath_of t = (if isFileInFileCabinet t \<or> isJavaScript t then FilesPath else ObjectsPath)"

fun other_path :: "xmlPath \<Rightarrow> xmlPath" where
  "other_path FilesPath = ObjectsPath"
| "other_path ObjectsPath = FilesPath"

definition manifest :: "filesystem \<Rightarrow> sdf \<Rightarrow> DeployXml" where
  "manifest fs s = (case fs (deployPath s) of None \<Rightarrow> defaultXml | Some d \<Rightarrow> d)"

definition project_target :: target where
  "project_target =
     \<lparr>isFileInFileCabinet = True, isJavaScript = True, isObject = False,
      matchedJavaScriptFile = False,
      relativePath = ''~/FileCabinet/SuiteScripts/foo.js''\<rparr>"

section \<open>Facts about the string functions\<close>

lemma startsWith_iff: "startsWith s p \<longleftrightarrow> (\<exists>b. s = p @ b)"
  by (induction s p rule: startsWith.induct) auto

lemma includes_str_iff: "includes_str s t \<longleftrightarrow> (\<exists>a b. s = a @ t @ b)"
proof (induction s)
  case Nil
  then show ?case by simp
next
  case (Cons c cs)
  show ?case
  proof
    assume "includes_str (c # cs) t"
    then consider "startsWith (c # cs) t" | "includes_str cs t" by auto
    then show "\<exists>a b. c # cs = a @ t @ b"
    proof cases
      case 1
      then obtain b where "c # cs = t @ b" by (auto simp: startsWith_iff)
      then have "c # cs = [] @ t @ b" by simp
      then show ?thesis by blast
    next
      case 2
      then obtain a b where "cs = a @ t @ b" using Cons.IH by blast
      then have "c # cs = (c # a) @ t @ b" by simp
      then show ?thesis by blast
    qed
  next
    assume "\<exists>a b. c # cs = a @ t @ b"
    then obtain a b where ab: "c # cs = a @ t @ b" by blast
    show "includes_str (c # cs) t"
    proof (cases a)
      case Nil
      with ab have "startsWith (c # cs) t" by (auto simp: startsWith_iff)
      then show ?thesis by simp
    next
      case (Cons x a')
      with ab have "cs = a' @ t @ b" by simp
      then have "includes_str cs t" using Cons.IH by blast
      then show ?thesis by simp
    qed
  qed
qed

lemma includes_str_longer:
  "includes_str s (p @ t @ q) \<Longrightarrow> includes_str s t"
proof -
  assume "includes_str s (p @ t @ q)"
  then obtain a b where "s = a @ (p @ t @ q) @ b" by (auto simp: includes_str_iff)
  then have "s = (a @ p) @ t @ (q @ b)" by simp
  then show ?thesis unfolding includes_str_iff by blast
qed

lemma js_split_not_Nil [simp]: "js_split sep s \<noteq> []"
  by (induction s) (auto split: list.splits)

lemma js_split_unfold:
  "js_split sep s = takeWhile (\<lambda>c. c \<noteq> sep) s #
     (case dropWhile (\<lambda>c. c \<noteq> sep) s of [] \<Rightarrow> [] | c # r \<Rightarrow> js_split sep r)"
  by (induction s) (auto split: list.splits)

lemma js_split_hd: "js_split sep s ! 0 = takeWhile (\<lambda>c. c \<noteq> sep) s"
  by (subst js_split_unfold) simp

lemma js_split_second:
  assumes "sep \<in> set s"
  shows "js_split sep s ! Suc 0 = takeWhile (\<lambda>c. c \<noteq> sep) (tl (dropWhile (\<lambda>c. c \<noteq> sep) s))"
proof -
  from assms have "dropWhile (\<lambda>c. c \<noteq> sep) s \<noteq> []" by auto
  then obtain c r where cr: "dropWhile (\<lambda>c. c \<noteq> sep) s = c # r"
    by (cases "dropWhile (\<lambda>c. c \<noteq> sep) s") auto
  have "js_split sep s = takeWhile (\<lambda>c. c \<noteq> sep) s # js_split sep r"
    by (subst js_split_unfold) (simp add: cr)
  then have "js_split sep s ! Suc 0 = js_split sep r ! 0" by simp
  also have "\<dots> = takeWhile (\<lambda>c. c \<noteq> sep) r" by (rule js_split_hd)
  finally show ?thesis by (simp add: cr)
qed

lemma includes_str_char: "includes_str s [c] \<longleftrightarrow> c \<in> set s"
  by (induction s) auto

lemma js_split_no_sep: "sep \<notin> set s \<Longrightarrow> js_split sep s = [s]"
  by (induction s) auto

lemma js_split_pieces: "l \<in> set (js_split sep s) \<Longrightarrow> sep \<notin> set l"
  by (induction s arbitrary: l) (auto split: if_splits list.splits)

lemma js_split_append:
  "js_split sep (xs @ ys) =
     butlast (js_split sep xs)
     @ (last (js_split sep xs) @ hd (js_split sep ys)) # tl (js_split sep ys)"
proof (induction xs)
  case Nil
  then show ?case by simp
next
  case (Cons c cs)
  show ?case
  proof (cases "c = sep")
    case True
    then show ?thesis using Cons.IH by simp
  next
    case False
    obtain a as where A: "js_split sep cs = a # as"
      by (cases "js_split sep cs") auto
    show ?thesis
    proof (cases as)
      case Nil
      then show ?thesis using False A Cons.IH by simp
    next
      case (Cons b bs)
      then show ?thesis using False A Cons.IH by simp
    qed
  qed
qed

lemma js_split_rebuild:
  "concat (map (\<lambda>l. l @ [sep]) (butlast (js_split sep s))) @ last (js_split sep s) = s"
proof (induction s)
  case Nil
  then show ?case by simp
next
  case (Cons c cs)
  obtain a as where A: "js_split sep cs = a # as"
    by (cases "js_split sep cs") auto
  show ?case using Cons.IH A by (cases as) auto
qed

section \<open>The handlers of one line\<close>

text \<open>
  Claim C10. In \<^verbatim>\<open>handleStdOut\<close>, a line with \<^verbatim>\<open>does not exist.\<close> but without
  \<^verbatim>\<open>That record does not exist.\<close> shows the error about the custom record and,
  since the case runs on into the next, the message that the installation was
  completed as well; a line with \<^verbatim>\<open>That record does not exist.\<close> shows nothing;
  the message of completion alone is shown exactly for the lines with
  \<^verbatim>\<open>Installation COMPLETE\<close> and without \<^verbatim>\<open>does not exist.\<close>
\<close>

theorem handleStdOut_classification:
  "(includes_str line ''does not exist.'' \<and> \<not> includes_str line ''That record does not exist.''
      \<longrightarrow> handleStdOut line command =
            [ShowErrorMessage record_missing_message, ShowInformationMessage installed_message])
   \<and> (includes_str line ''That record does not exist.'' \<longrightarrow> handleStdOut line command = [])
   \<and> (handleStdOut line command = [ShowInformationMessage installed_message]
        \<longleftrightarrow> includes_str line ''Installation COMPLETE'' \<and> \<not> includes_str line ''does not exist.'')"
proof -
  have sub: "includes_str line ''That record does not exist.''
      \<Longrightarrow> includes_str line ''does not exist.''"
    using includes_str_longer [of line "''That record ''" "''does not exist.''" "[]"] by simp
  show ?thesis
    using sub by (auto simp: handleStdOut_def)
qed

theorem handleStdOut_classification_witness:
  "handleStdOut ''The object customrecord_x does not exist.'' Update =
       [ShowErrorMessage record_missing_message, ShowInformationMessage installed_message]
   \<and> handleStdOut ''That record does not exist.'' Update = []
   \<and> handleStdOut ''Installation COMPLETE'' Deploy = [ShowInformationMessage installed_message]"
  using handleStdOut_classification [of "''The object customrecord_x does not exist.''" Update]
    handleStdOut_classification [of "''That record does not exist.''" Update]
    handleStdOut_classification [of "''Installation COMPLETE''" Deploy]
  by simp

text \<open>
  Claim C1. In \<^verbatim>\<open>handleStdIn\<close>, a line with the warning about a production
  account opens the input box; \<^verbatim>\<open>YES\<close> and a newline are written to the standard
  input of the subprocess when the answer is exactly \<^verbatim>\<open>Deploy\<close>, and \<^verbatim>\<open>NO\<close> and a
  newline for every other answer and for a dismissed box. A line without the
  warning and with one of the five other prompts gets \<^verbatim>\<open>YES\<close> and a newline with
  no question asked. No line gets more than one write: the first case that matches
  decides.
\<close>

theorem handleStdIn_injection:
  "(includes_str line production_warning \<longrightarrow>
      handleStdIn line command answer =
        ShowInputBox deploy_prompt #
        (if answer = Some ''Deploy'' then [StdinNext (''YES'' @ [newline])]
         else [OutputAppend (''Cancelling deployment.'' @ [newline]),
               StdinNext (''NO'' @ [newline])])
      \<and> injections (handleStdIn line command answer)
          = [if answer = Some ''Deploy'' then ''YES'' @ [newline] else ''NO'' @ [newline]])
   \<and> (\<not> includes_str line production_warning \<and>
        (includes_str line ''Type YES to continue''
         \<or> includes_str line ''enter YES to continue''
         \<or> includes_str line ''Type YES to update the manifest file''
         \<or> includes_str line ''Proceed with deploy?''
         \<or> includes_str line ''Type Yes (Y) to continue.'')
        \<longrightarrow> handleStdIn line command answer = [StdinNext (''YES'' @ [newline])])
   \<and> length (injections (handleStdIn line command answer)) \<le> 1"
  by (auto simp: handleStdIn_def YES_def NO_def)

theorem handleStdIn_injection_witness:
  "handleStdIn production_warning Deploy (Some ''Deploy'')
     = [ShowInputBox deploy_prompt, StdinNext (''YES'' @ [newline])]
   \<and> handleStdIn production_warning Deploy (Some ''deploy'')
     = [ShowInputBox deploy_prompt, OutputAppend (''Cancelling deployment.'' @ [newline]),
        StdinNext (''NO'' @ [newline])]
   \<and> handleStdIn production_warning Deploy None
     = [ShowInputBox deploy_prompt, OutputAppend (''Cancelling deployment.'' @ [newline]),
        StdinNext (''NO'' @ [newline])]
   \<and> handleStdIn ''Proceed with deploy?'' Deploy None = [StdinNext (''YES'' @ [newline])]"
  using handleStdIn_injection [of production_warning Deploy "Some ''Deploy''"]
   handleStdIn_injection [of production_warning Deploy "Some ''deploy''"]
   handleStdIn_injection [of production_warning Deploy None]
   handleStdIn_injection [of "''Proceed with deploy?''" Deploy None]
  by (simp add: production_warning_def)

text \<open>
  Claim C6, as the claim states it, fails: for a line of \<^verbatim>\<open>listobjects\<close> with
  two colons the result is the text between them, not all of the text after the
  first colon.
\<close>

theorem mapCommandOutput_two_colons:
  "mapCommandOutput ListObjects ''a:b:c'' = ''b''
   \<and> tl (dropWhile (\<lambda>c. c \<noteq> CHR '':'') ''a:b:c'') = ''b:c''"
  by (simp add: mapCommandOutput_def)

text \<open>
  Claim C6, amended. For \<^verbatim>\<open>ListObjects\<close>, a line with a colon is mapped to the
  text after the first colon up to the second colon, or up to the end of the line
  when there is no second colon; a line of \<^verbatim>\<open>ListObjects\<close> with no colon, and
  every line of every other command, is returned as it is.
\<close>

theorem mapCommandOutput_second_piece:
  "mapCommandOutput command line =
     (if command = ListObjects \<and> CHR '':'' \<in> set line
      then takeWhile (\<lambda>c. c \<noteq> CHR '':'') (tl (dropWhile (\<lambda>c. c \<noteq> CHR '':'') line))
      else line)"
  by (cases command) (simp_all add: mapCommandOutput_def includes_str_char js_split_second)

theorem mapCommandOutput_second_piece_witness:
  "mapCommandOutput ListObjects ''customrecord_type:Some Label'' = ''Some Label''
   \<and> mapCommandOutput ListObjects ''No custom objects found.'' = ''No custom objects found.''
   \<and> mapCommandOutput ListFiles ''/SuiteScripts/a:b.js'' = ''/SuiteScripts/a:b.js''"
  using mapCommandOutput_second_piece [of ListObjects "''customrecord_type:Some Label''"]
    mapCommandOutput_second_piece [of ListObjects "''No custom objects found.''"]
    mapCommandOutput_second_piece [of ListFiles "''/SuiteScripts/a:b.js''"]
  by simp

section \<open>The collected lines\<close>

lemma foldl_snoc: "foldl (\<lambda>acc curr. acc @ [curr]) a xs = a @ xs"
  by (induction xs arbitrary: a) auto

lemma mapCommandOutput_other:
  "command \<noteq> ListObjects \<Longrightarrow> mapCommandOutput command = (\<lambda>line. line)"
  by (cases command) (auto simp: mapCommandOutput_def)

text \<open>
  Claim C5. For a command other than \<^verbatim>\<open>ListObjects\<close>, the collected result is the
  sequence of lines without the lines that are empty or start with \<^verbatim>\<open>[INFO]\<close>,
  the banner, \<^verbatim>\<open>Done.\<close> or \<^verbatim>\<open>Using \<close>, the other lines in the order in which they
  came; the four lines of the example give \<^verbatim>\<open>result-a\<close> and \<^verbatim>\<open>result-b\<close>.
\<close>

theorem collect_filters:
  "(command \<noteq> ListObjects \<longrightarrow>
      collect command lines =
        filter (\<lambda>line. \<not> (line = [] \<or> (\<exists>r. line = ''[INFO]'' @ r)
                   \<or> (\<exists>r. line = ''SuiteCloud Development Framework CLI'' @ r)
                   \<or> (\<exists>r. line = ''Done.'' @ r) \<or> (\<exists>r. line = ''Using '' @ r))) lines)
   \<and> collect Deploy [''[INFO] starting'', ''Done.'', ''result-a'', ''result-b'']
        = [''result-a'', ''result-b'']"
proof -
  have n: "is_noise = (\<lambda>line. line = [] \<or> (\<exists>r. line = ''[INFO]'' @ r)
                   \<or> (\<exists>r. line = ''SuiteCloud Development Framework CLI'' @ r)
                   \<or> (\<exists>r. line = ''Done.'' @ r) \<or> (\<exists>r. line = ''Using '' @ r))"
    unfolding is_noise_def startsWith_iff by (rule refl)
  have "collect command lines = filter (\<lambda>line. \<not> is_noise line) lines"
    if "command \<noteq> ListObjects"
    using that by (simp add: collect_def foldl_snoc mapCommandOutput_other)
  moreover have "collect Deploy [''[INFO] starting'', ''Done.'', ''result-a'', ''result-b'']
        = [''result-a'', ''result-b'']"
    by (simp add: collect_def is_noise_def mapCommandOutput_def)
  ultimately show ?thesis unfolding n by blast
qed

theorem collect_filters_witness:
  "collect Validate [''Using account 1'', [], ''[INFO] x'', ''b'', ''Done. '', ''a'', ''b'']
     = [''b'', ''a'', ''b'']"
  using collect_filters [of Validate
      "[''Using account 1'', [], ''[INFO] x'', ''b'', ''Done. '', ''a'', ''b'']"]
  by (simp add: collect_def is_noise_def mapCommandOutput_def)

section \<open>The wrapper of the stream\<close>

lemma stream_from:
  "newline \<notin> set acc \<Longrightarrow>
     emitted_from acc vals = butlast (js_split newline (acc @ concat vals))
     \<and> pending_from acc vals = last (js_split newline (acc @ concat vals))"
proof (induction vals arbitrary: acc)
  case Nil
  then show ?case by (simp add: js_split_no_sep)
next
  case (Cons v vs)
  let ?A = "js_split newline (acc @ v)"
  have lastA: "newline \<notin> set (last ?A)"
    using js_split_pieces [of "last ?A" newline "acc @ v"] by simp
  have sp: "js_split newline (last ?A) = [last ?A]"
    using lastA by (rule js_split_no_sep)
  have whole: "js_split newline ((acc @ v) @ concat vs)
      = butlast ?A @ js_split newline (last ?A @ concat vs)"
    by (simp only: js_split_append [of newline "acc @ v"] js_split_append [of newline "last ?A"] sp)
       simp
  have ne: "js_split newline (last ?A @ concat vs) \<noteq> []" by simp
  show ?case
    using Cons.IH [OF lastA] whole ne
    by (simp add: on_value_def Let_def butlast_append)
qed

text \<open>
  Claim C8, as the claim states it, fails: the text after the last newline is not
  handed on when the stream completes.
\<close>

theorem streamWrapper_drops_trailing_line:
  "streamWrapper [''a'' @ [newline] @ ''b''] Completed = [Next ''a'', Complete]
   \<and> Next ''b'' \<notin> set (streamWrapper [''a'' @ [newline] @ ''b''] Completed)"
  by (simp add: streamWrapper_def on_value_def newline_def)

text \<open>
  Claim C8, amended. The wrapper keeps the unfinished line from one chunk to the
  next and splits at newlines only: the lines handed on are the pieces of the whole
  output that end with a newline, so they are the same for every cutting of the
  output into chunks, no line has a newline in it, and the lines, each with its
  newline, followed by the text kept back, are the output received so far. The
  text after the last newline is kept back and is not handed on, neither before
  nor when the stream completes or fails.
\<close>

theorem streamWrapper_lines:
  "streamWrapper vals e =
      map Next (butlast (js_split newline (concat vals)))
      @ [case e of Completed \<Rightarrow> Complete | Failed \<Rightarrow> Error]
   \<and> (concat vals = concat vals' \<longrightarrow> streamWrapper vals e = streamWrapper vals' e)
   \<and> (\<forall>l \<in> set (emitted_from [] vals). newline \<notin> set l)
   \<and> concat (map (\<lambda>l. l @ [newline]) (emitted_from [] vals)) @ pending_from [] vals = concat vals
   \<and> newline \<notin> set (pending_from [] vals)"
proof -
  have e: "emitted_from [] vs = butlast (js_split newline (concat vs))"
    and p: "pending_from [] vs = last (js_split newline (concat vs))" for vs
    using stream_from [of "[]" vs] by simp_all
  have 1: "streamWrapper vals e =
      map Next (butlast (js_split newline (concat vals)))
      @ [case e of Completed \<Rightarrow> Complete | Failed \<Rightarrow> Error]"
    by (simp add: streamWrapper_def e)
  have 2: "concat vals = concat vals' \<longrightarrow> streamWrapper vals e = streamWrapper vals' e"
    by (simp add: streamWrapper_def e)
  have 3: "\<forall>l \<in> set (emitted_from [] vals). newline \<notin> set l"
    unfolding e using js_split_pieces [of _ newline "concat vals"]
    by (auto dest: in_set_butlastD)
  have 4: "concat (map (\<lambda>l. l @ [newline]) (emitted_from [] vals)) @ pending_from [] vals
             = concat vals"
    unfolding e p by (rule js_split_rebuild)
  have 5: "newline \<notin> set (pending_from [] vals)"
    unfolding p
    using js_split_pieces [of "last (js_split newline (concat vals))" newline "concat vals"]
    by simp
  show ?thesis using 1 2 3 4 5 by blast
qed

theorem streamWrapper_lines_witness:
  "streamWrapper [''ab'', ''c'' @ [newline] @ ''d'', [newline], ''e''] Completed
     = [Next ''abc'', Next ''d'', Complete]
   \<and> streamWrapper [''abc'' @ [newline], ''d'' @ [newline] @ ''e''] Completed
     = [Next ''abc'', Next ''d'', Complete]
   \<and> pending_from [] [''ab'', ''c'' @ [newline] @ ''d'', [newline], ''e''] = ''e''"
  using streamWrapper_lines [of "[''ab'', ''c'' @ [newline] @ ''d'', [newline], ''e'']" Completed
     "[''abc'' @ [newline], ''d'' @ [newline] @ ''e'']"]
  by (simp add: streamWrapper_def on_value_def newline_def)

section \<open>Running a command: cleaning up, the working directory\<close>

lemma spawns_append [simp]: "spawns (xs @ ys) = spawns xs @ spawns ys"
  by (induction xs rule: spawns.induct) auto

lemma removals_append [simp]: "removals (xs @ ys) = removals xs @ removals ys"
  by (induction xs rule: removals.induct) auto

lemma emitted_by_chunk_concat: "concat (emitted_by_chunk acc vals) = emitted_from acc vals"
  by (induction vals arbitrary: acc) (auto split: prod.splits)

lemma stdin_now_later: "stdin_now line command @ stdin_later line command answer
    = handleStdIn line command answer"
  by (auto simp: stdin_now_def stdin_later_def handleStdIn_def)

lemma tap_line_quiet [simp]:
  "spawns (tap_line d c l) = []" "removals (tap_line d c l) = []"
  by (auto simp: tap_line_def stdin_now_def handleStdIn_def handleStdOut_def)

lemma stdin_later_quiet [simp]:
  "spawns (stdin_later l c a) = []" "removals (stdin_later l c a) = []"
  by (auto simp: stdin_later_def handleStdIn_def)

lemma quiet_Nil [simp]: "quiet []"
  by (simp add: quiet_def)

lemma quiet_Cons [simp]:
  "quiet ((d, evs) # ws) \<longleftrightarrow> spawns evs = [] \<and> removals evs = [] \<and> quiet ws"
  by (simp add: quiet_def)

lemma tap_lines_quiet:
  "tap_lines d c as ls = (evs, ws, as') \<Longrightarrow> spawns evs = [] \<and> removals evs = [] \<and> quiet ws"
proof (induction ls arbitrary: as evs ws as')
  case Nil
  then show ?case by simp
next
  case (Cons line lines)
  show ?case
  proof (cases "includes_str line production_warning")
    case False
    obtain e w a where r: "tap_lines d c as lines = (e, w, a)"
      by (cases "tap_lines d c as lines") auto
    from Cons.IH [OF r] Cons.prems False r show ?thesis by auto
  next
    case True
    show ?thesis
    proof (cases as)
      case Nil
      obtain e w a where r: "tap_lines d c [] lines = (e, w, a)"
        by (cases "tap_lines d c [] lines") auto
      from Cons.IH [OF r] Cons.prems True Nil r show ?thesis by auto
    next
      case (Cons da rest)
      obtain delay answer where da: "da = (delay, answer)" by (cases da)
      obtain e w a where r: "tap_lines d c rest lines = (e, w, a)"
        by (cases "tap_lines d c rest lines") auto
      from Cons.IH [OF r] Cons.prems True Cons da r show ?thesis by auto
    qed
  qed
qed

lemma due_quiet: "quiet ws \<Longrightarrow> spawns (due ws) = [] \<and> removals (due ws) = []"
  unfolding due_def by (induction ws) auto

lemma later_quiet: "quiet ws \<Longrightarrow> quiet (later ws)"
  unfolding later_def by (induction ws) auto

lemma quiet_append: "quiet a \<Longrightarrow> quiet b \<Longrightarrow> quiet (a @ b)"
  unfolding quiet_def by simp

lemma taps_quiet_from:
  "quiet ws \<Longrightarrow> spawns (taps d c ws as cs) = [] \<and> removals (taps d c ws as cs) = []"
proof (induction d c ws as cs rule: taps.induct)
  case (1 doShow command ws as)
  then show ?case by simp
next
  case (2 doShow command ws as lines rest)
  obtain evs opened as' where t: "tap_lines doShow command as lines = (evs, opened, as')"
    by (cases "tap_lines doShow command as lines") auto
  from tap_lines_quiet [OF t] have q: "spawns evs = []" "removals evs = []" "quiet opened"
    by simp_all
  have qa: "quiet (ws @ opened)" using "2.prems" q(3) by (rule quiet_append)
  from "2.IH" [OF t [symmetric] refl later_quiet [OF qa]] due_quiet [OF qa] q(1,2) t
  show ?case by simp
qed

lemma taps_quiet [simp]:
  "spawns (taps d c [] as cs) = []" "removals (taps d c [] as cs) = []"
  using taps_quiet_from [of "[]" d c as cs] by simp_all

lemma cleanup_flags:
  "doAddProjectParameter (cleanup s)" "addDefaultParameters (cleanup s)"
  "doShowOutput (cleanup s)" "\<not> doReturnData (cleanup s)" "tempDir (cleanup s) = None"
  "savedStatus (cleanup s) =
     (case savedStatus s of Some t \<Rightarrow> if t \<noteq> [] then None else Some t | None \<Rightarrow> None)"
  "activeEnvironment (cleanup s) = activeEnvironment s"
  by (auto simp: cleanup_def Let_def say_def clearStatus_def split: option.splits)

lemma cleanup_events:
  "events (cleanup s) = events s @
     (case tempDir s of Some name \<Rightarrow> if name \<noteq> [] then [RemoveCallback name] else []
      | None \<Rightarrow> [])"
  by (auto simp: cleanup_def Let_def say_def clearStatus_def split: option.splits)

lemma cleanup_status:
  "statusBar_text (cleanup s) =
     (case savedStatus s of Some t \<Rightarrow> if t \<noteq> [] then t else statusBarDefault s
      | None \<Rightarrow> statusBarDefault s)"
  by (auto simp: cleanup_def Let_def say_def clearStatus_def statusBarDefault_def
      split: option.splits)

lemma runCommand_started:
  assumes "getConfig s h False = Inr s1" "sdfConfig s1 = Some config"
    "activeEnvironment s1 = Some env"
  shows "runCommand s h p command args =
     (case ending p of
        Completed \<Rightarrow> Inr (cleanup (session s1 h p env command args),
                           Some (collect command (emitted_from [] (chunks p))))
      | Failed \<Rightarrow> Inr (cleanup (cleanup (session s1 h p env command args)), None))"
  using assms
  by (cases "ending p"; cases "doShowOutput s1";
      simp add: runCommand_def session_def workPath_def Let_def say_def showStatus_def)

lemma session_fields:
  "tempDir (session s1 h p env command args) = tempDir s1"
  "savedStatus (session s1 h p env command args) = Some (statusBar_text s1)"
  "activeEnvironment (session s1 h p env command args) = activeEnvironment s1"
  "spawns (events (session s1 h p env command args)) =
     spawns (events s1) @ [(commandArray s1 h env (workPath s1) command args, workPath s1)]"
  "removals (events (session s1 h p env command args)) = removals (events s1)"
  by (auto simp: session_def Let_def say_def showStatus_def workPath_def commandArray_def
      split: option.splits)

lemma runCommand_spawns:
  assumes "getConfig s h False = Inr s1" "sdfConfig s1 = Some config"
    "activeEnvironment s1 = Some env"
  shows "spawns (events_of (runCommand s h p command args)) =
     spawns (events s1) @ [(commandArray s1 h env (workPath s1) command args, workPath s1)]"
  unfolding runCommand_started [OF assms]
  by (cases "ending p")
     (simp_all add: events_of_def cleanup_events session_fields cleanup_flags split: option.splits)

lemma load_registry_cases:
  assumes "load_registry s h = Inr s1"
  shows "s1 = say (ShowErrorMessage no_authids_message) s
         \<or> (\<exists>config. s1 = s\<lparr>sdfConfig := Some config\<rparr>)"
proof (cases "manageauth_list h")
  case None
  then show ?thesis using assms by (simp add: load_registry_def)
next
  case (Some out)
  show ?thesis
  proof (cases "length (js_split newline (js_trim out)) < 2")
    case True
    then have "s1 = say (ShowErrorMessage no_authids_message) s"
      using assms Some by (simp add: load_registry_def Let_def)
    then show ?thesis by blast
  next
    case False
    then have "s1 = s\<lparr>sdfConfig := Some \<lparr>environments =
        map parse_line (drop 1 (js_split newline (js_trim out)))\<rparr>\<rparr>"
      using assms Some by (simp add: load_registry_def Let_def)
    then show ?thesis by blast
  qed
qed

lemma load_registry_fields:
  assumes "load_registry s h = Inr s1"
  shows "activeEnvironment s1 = activeEnvironment s \<and> tempDir s1 = tempDir s
    \<and> addDefaultParameters s1 = addDefaultParameters s
    \<and> doAddProjectParameter s1 = doAddProjectParameter s
    \<and> spawns (events s1) = spawns (events s) \<and> removals (events s1) = removals (events s)"
  using load_registry_cases [OF assms] by (auto simp: say_def)

lemma select_from_fields:
  "tempDir (select_from config s h) = tempDir s
   \<and> addDefaultParameters (select_from config s h) = addDefaultParameters s
   \<and> doAddProjectParameter (select_from config s h) = doAddProjectParameter s
   \<and> spawns (events (select_from config s h)) = spawns (events s)
   \<and> removals (events (select_from config s h)) = removals (events s)"
  by (auto simp: select_from_def Let_def say_def split: option.splits)

lemma getConfig_cases:
  assumes "getConfig s h force = Inr s1"
  obtains (message) m where "s1 = say (ShowErrorMessage m) s"
  | (load) root where "force \<or> sdfConfig s = None" "load_registry (s\<lparr>rootPath := root\<rparr>) h = Inr s1"
  | (select) root config where "\<not> force" "sdfConfig s = Some config" "activeEnvironment s = None"
      "s1 = select_from config (s\<lparr>rootPath := root\<rparr>) h"
  | (keep) root where "\<not> force" "sdfConfig s \<noteq> None" "activeEnvironment s \<noteq> None"
      "s1 = s\<lparr>rootPath := root\<rparr>"
proof (cases "sdfCliIsInstalled s")
  case False
  then have "s1 = say (ShowErrorMessage not_found_message) s"
    using assms by (simp add: getConfig_def)
  then show ?thesis by (rule message)
next
  case True
  show ?thesis
  proof (cases "workspaceFolder h")
    case None
    then have "s1 = say (ShowErrorMessage ''Unable to determine workspace folder'') s"
      using assms True by (simp add: getConfig_def)
    then show ?thesis by (rule message)
  next
    case (Some root)
    let ?s = "s\<lparr>rootPath := root\<rparr>"
    show ?thesis
    proof (cases "force \<or> sdfConfig s = None")
      case True
      then have "load_registry ?s h = Inr s1"
        using assms \<open>sdfCliIsInstalled s\<close> Some by (auto simp: getConfig_def Let_def)
      with True show ?thesis by (rule load)
    next
      case False
      then obtain config where c: "sdfConfig s = Some config" and nf: "\<not> force" by auto
      show ?thesis
      proof (cases "activeEnvironment s = None")
        case True
        then have "selectEnvironment ?s h = Inr s1"
          using assms \<open>sdfCliIsInstalled s\<close> Some nf c by (simp add: getConfig_def Let_def)
        then have "s1 = select_from config ?s h"
          using \<open>sdfCliIsInstalled s\<close> c by (simp add: selectEnvironment_def)
        with nf c True show ?thesis by (rule select)
      next
        case False
        then have "s1 = ?s"
          using assms \<open>sdfCliIsInstalled s\<close> Some nf c by (auto simp: getConfig_def Let_def)
        with nf c False show ?thesis by (intro keep) simp_all
      qed
    qed
  qed
qed

lemma getConfig_fields:
  assumes "getConfig s h force = Inr s1"
  shows "tempDir s1 = tempDir s"
    "addDefaultParameters s1 = addDefaultParameters s"
    "doAddProjectParameter s1 = doAddProjectParameter s"
    "spawns (events s1) = spawns (events s)" "removals (events s1) = removals (events s)"
proof -
  have "tempDir s1 = tempDir s
    \<and> addDefaultParameters s1 = addDefaultParameters s
    \<and> doAddProjectParameter s1 = doAddProjectParameter s
    \<and> spawns (events s1) = spawns (events s) \<and> removals (events s1) = removals (events s)"
    using assms
  proof (cases rule: getConfig_cases)
    case (message m)
    then show ?thesis by (simp add: say_def)
  next
    case (load root)
    from load_registry_fields [OF load(2)] show ?thesis by simp
  next
    case (select root config)
    then show ?thesis using select_from_fields [of config "s\<lparr>rootPath := root\<rparr>" h] by simp
  next
    case (keep root)
    then show ?thesis by simp
  qed
  then show "tempDir s1 = tempDir s"
    "addDefaultParameters s1 = addDefaultParameters s"
    "doAddProjectParameter s1 = doAddProjectParameter s"
    "spawns (events s1) = spawns (events s)" "removals (events s1) = removals (events s)"
    by simp_all
qed

lemma getConfig_active:
  assumes "getConfig s h force = Inr s1"
    and "force \<or> sdfConfig s = None \<or> activeEnvironment s \<noteq> None"
  shows "activeEnvironment s1 = activeEnvironment s"
  using assms(1)
proof (cases rule: getConfig_cases)
  case (message m)
  then show ?thesis by (simp add: say_def)
next
  case (load root)
  from load_registry_fields [OF load(2)] show ?thesis by simp
next
  case (select root config)
  with assms(2) show ?thesis by simp
next
  case (keep root)
  then show ?thesis by simp
qed

text \<open>
  Claim C2. When \<^verbatim>\<open>runCommand\<close> has started the subprocess (after \<^verbatim>\<open>getConfig\<close>
  the registry and the active environment are set), then, whether the promise of
  the collected lines is resolved or rejected, \<^verbatim>\<open>runCommand\<close> returns with the
  flags at their defaults (\<^verbatim>\<open>doAddProjectParameter\<close>, \<^verbatim>\<open>addDefaultParameters\<close> and
  \<^verbatim>\<open>doShowOutput\<close> set, \<^verbatim>\<open>doReturnData\<close> not set), with the temporary directory, if
  there was one, removed through its callback, once, and the handle cleared, and
  with the text of the status bar put back to the saved text or to the default
  text. The subprocess is started once: nothing is tried again.
\<close>

theorem runCommand_cleans_up:
  assumes "getConfig s h False = Inr s1" "sdfConfig s1 = Some config"
    "activeEnvironment s1 = Some env"
  shows "\<exists>s' r. runCommand s h p command args = Inr (s', r)
     \<and> doAddProjectParameter s' \<and> addDefaultParameters s' \<and> doShowOutput s' \<and> \<not> doReturnData s'
     \<and> tempDir s' = None
     \<and> removals (events s') = removals (events s)
          @ (case tempDir s of Some name \<Rightarrow> if name \<noteq> [] then [name] else [] | None \<Rightarrow> [])
     \<and> statusBar_text s' =
          (if ending p = Completed \<and> statusBar_text s1 \<noteq> [] then statusBar_text s1
           else statusBarDefault s1)
     \<and> length (spawns (events s')) = length (spawns (events s)) + 1
     \<and> (ending p = Failed \<longrightarrow> r = None)"
proof (cases "ending p")
  case Completed
  then show ?thesis
    unfolding runCommand_started [OF assms] getConfig_fields [OF assms(1), symmetric]
    by (simp add: cleanup_flags cleanup_events cleanup_status session_fields statusBarDefault_def
        split: option.splits)
next
  case Failed
  then show ?thesis
    unfolding runCommand_started [OF assms] getConfig_fields [OF assms(1), symmetric]
    by (simp add: cleanup_flags cleanup_events cleanup_status session_fields statusBarDefault_def
        split: option.splits)
qed

theorem runCommand_cleans_up_witness:
  "(\<exists>s' r. runCommand (project_state\<lparr>tempDir := Some ''/tmp/tmp-1'',
                  doAddProjectParameter := False, doReturnData := True\<rparr>)
               project_host (project_process Failed) ListFiles [] = Inr (s', r)
     \<and> doAddProjectParameter s' \<and> addDefaultParameters s' \<and> doShowOutput s' \<and> \<not> doReturnData s'
     \<and> tempDir s' = None
     \<and> removals (events s') = [''/tmp/tmp-1'']
     \<and> statusBar_text s' = ''SDF (a)''
     \<and> length (spawns (events s')) = 1
     \<and> r = None)
   \<and> (\<exists>s' r. runCommand (project_state\<lparr>tempDir := Some ''/tmp/tmp-1'',
                  doAddProjectParameter := False, doReturnData := True\<rparr>)
               project_host (project_process Completed) ListFiles [] = Inr (s', r)
     \<and> doAddProjectParameter s' \<and> addDefaultParameters s' \<and> doShowOutput s' \<and> \<not> doReturnData s'
     \<and> tempDir s' = None
     \<and> removals (events s') = [''/tmp/tmp-1'']
     \<and> statusBar_text s' = ''SDF (a)''
     \<and> length (spawns (events s')) = 1)"
proof -
  let ?s = "project_state\<lparr>tempDir := Some ''/tmp/tmp-1'', doAddProjectParameter := False,
                doReturnData := True\<rparr>"
  have g: "getConfig ?s project_host False = Inr ?s"
    by (simp add: getConfig_def project_state_def project_host_def)
  have c: "sdfConfig ?s = Some \<lparr>environments = [\<lparr>authid = ''a''\<rparr>, \<lparr>authid = ''b''\<rparr>]\<rparr>"
    by (simp add: project_state_def)
  have a: "activeEnvironment ?s = Some \<lparr>authid = ''a''\<rparr>"
    by (simp add: project_state_def)
  have e: "ending (project_process Failed) = Failed" "ending (project_process Completed) = Completed"
    by (simp_all add: project_process_def)
  show ?thesis
    using runCommand_cleans_up [OF g c a, of "project_process Failed" ListFiles "[]"]
      runCommand_cleans_up [OF g c a, of "project_process Completed" ListFiles "[]"] e
    by (simp add: project_state_def statusBarDefault_def)
qed

text \<open>
  Claim C3, as the claim states it, fails: with the temporary directory
  \<^verbatim>\<open>/tmp/tmp-1\<close> and the project at \<^verbatim>\<open>/home/u/proj\<close>, the subprocess is started in
  \<^verbatim>\<open>/home/u/proj/tmp/tmp-1\<close>, and that path follows \<^verbatim>\<open>-p\<close>.
\<close>

theorem runCommand_staging_cwd:
  "spawns (events_of (runCommand (project_state\<lparr>tempDir := Some ''/tmp/tmp-1''\<rparr>) project_host
                 (project_process Completed) Deploy []))
    = [([''deploy'', ''-authid'', ''a'', ''-p'', ''/home/u/proj/tmp/tmp-1''], ''/home/u/proj/tmp/tmp-1'')]
   \<and> tempDir (project_state\<lparr>tempDir := Some ''/tmp/tmp-1''\<rparr>) = Some ''/tmp/tmp-1''
   \<and> ''/home/u/proj/tmp/tmp-1'' \<noteq> ''/tmp/tmp-1''"
  by code_simp

text \<open>
  The copies made for a deployment from the temporary directory are below the
  project root as well, under the same directory.
\<close>

lemma copy_destination_example:
  "copy_destination project_state ''/tmp/tmp-1'' ''/FileCabinet/SuiteScripts/foo.js''
     = ''/home/u/proj/tmp/tmp-1/FileCabinet/SuiteScripts/foo.js''"
  by code_simp

text \<open>
  Claim C3, amended. When \<^verbatim>\<open>runCommand\<close> starts the subprocess while a temporary
  directory is set, the working directory, and the path after \<^verbatim>\<open>-p\<close> when
  \<^verbatim>\<open>doAddProjectParameter\<close> is set, is \<^verbatim>\<open>path.join\<close> of the project root and the
  name of the temporary directory: the name of the temporary directory taken as a
  path below the project root. With no temporary directory set it is the project
  root.
\<close>

theorem runCommand_workPath:
  assumes "getConfig s h False = Inr s1" "sdfConfig s1 = Some config"
    "activeEnvironment s1 = Some env"
  shows "\<exists>argv cwd.
     spawns (events_of (runCommand s h p command args)) = spawns (events s) @ [(argv, cwd)]
     \<and> cwd = (case tempDir s of
                 None \<Rightarrow> rootPath s1
               | Some name \<Rightarrow> path_join [rootPath s1, name])
     \<and> argv = [token h command]
              @ (if addDefaultParameters s then [''-authid'', authid env] else [])
              @ (if doAddProjectParameter s then [''-p'', cwd] else [])
              @ concat (map (js_split (CHR '' '')) args)"
  unfolding runCommand_spawns [OF assms] getConfig_fields [OF assms(1), symmetric]
  by (simp add: commandArray_def workPath_def)

theorem runCommand_workPath_witness:
  "spawns (events_of (runCommand (project_state\<lparr>tempDir := Some ''/tmp/tmp-1''\<rparr>) project_host
                 (project_process Completed) ListFiles [''-folder /SuiteScripts'']))
    = [([''listfiles'', ''-authid'', ''a'', ''-p'', ''/home/u/proj/tmp/tmp-1'', ''-folder'', ''/SuiteScripts''],
        ''/home/u/proj/tmp/tmp-1'')]
   \<and> spawns (events_of (runCommand project_state project_host
                 (project_process Completed) ListFiles [''-folder /SuiteScripts'']))
    = [([''listfiles'', ''-authid'', ''a'', ''-p'', ''/home/u/proj'', ''-folder'', ''/SuiteScripts''],
        ''/home/u/proj'')]"
proof -
  let ?s = "project_state\<lparr>tempDir := Some ''/tmp/tmp-1''\<rparr>"
  have g: "getConfig ?s project_host False = Inr ?s"
    by (simp add: getConfig_def project_state_def project_host_def)
  have c: "sdfConfig ?s = Some \<lparr>environments = [\<lparr>authid = ''a''\<rparr>, \<lparr>authid = ''b''\<rparr>]\<rparr>"
    by (simp add: project_state_def)
  have a: "activeEnvironment ?s = Some \<lparr>authid = ''a''\<rparr>"
    by (simp add: project_state_def)
  have g': "getConfig project_state project_host False = Inr project_state"
    by (simp add: getConfig_def project_state_def project_host_def)
  have c': "sdfConfig project_state = Some \<lparr>environments = [\<lparr>authid = ''a''\<rparr>, \<lparr>authid = ''b''\<rparr>]\<rparr>"
    by (simp add: project_state_def)
  have a': "activeEnvironment project_state = Some \<lparr>authid = ''a''\<rparr>"
    by (simp add: project_state_def)
  have j: "path_join [''/home/u/proj'', ''/tmp/tmp-1''] = ''/home/u/proj/tmp/tmp-1''"
    by code_simp
  have sp: "js_split (CHR '' '') ''-folder /SuiteScripts'' = [''-folder'', ''/SuiteScripts'']"
    by code_simp
  show ?thesis
    using runCommand_workPath [OF g c a, of "project_process Completed" ListFiles "[''-folder /SuiteScripts'']"]
     runCommand_workPath [OF g' c' a', of "project_process Completed" ListFiles "[''-folder /SuiteScripts'']"]
    by (simp add: project_state_def project_host_def j sp)
qed

section \<open>Loading the registry\<close>

lemma startsWith_append: "startsWith s w \<Longrightarrow> startsWith (s @ t) w"
  by (auto simp: startsWith_iff)

lemma startsWith_same:
  "startsWith s a \<Longrightarrow> startsWith s b \<Longrightarrow> startsWith a b \<or> startsWith b a"
  by (auto simp: startsWith_iff append_eq_append_conv2)

lemma startsWith_append_cases:
  "startsWith (x @ t) w \<Longrightarrow> startsWith x w \<or> (\<exists>us. us \<noteq> [] \<and> w = x @ us \<and> startsWith t us)"
  by (auto simp: startsWith_iff append_eq_append_conv2) 

lemma concat_of_Nil [simp]: "concat_of W []"
  unfolding concat_of_def by (rule exI [of _ "[]"]) simp

lemma concat_of_append: "concat_of W a \<Longrightarrow> concat_of W b \<Longrightarrow> concat_of W (a @ b)"
  unfolding concat_of_def
proof -
  assume "\<exists>ws. set ws \<subseteq> set W \<and> a = concat ws" "\<exists>ws. set ws \<subseteq> set W \<and> b = concat ws"
  then obtain xs ys where "set xs \<subseteq> set W" "a = concat xs" "set ys \<subseteq> set W" "b = concat ys"
    by blast
  then have "set (xs @ ys) \<subseteq> set W \<and> a @ b = concat (xs @ ys)" by simp
  then show "\<exists>ws. set ws \<subseteq> set W \<and> a @ b = concat ws" by blast
qed

lemma concat_of_single: "w \<in> set W \<Longrightarrow> concat_of W w"
  unfolding concat_of_def by (rule exI [of _ "[w]"]) simp

lemma concat_of_rev: "concat_of (map rev W) s \<Longrightarrow> concat_of W (rev s)"
  unfolding concat_of_def
proof -
  assume "\<exists>ws. set ws \<subseteq> set (map rev W) \<and> s = concat ws"
  then obtain ws where ws: "set ws \<subseteq> set (map rev W)" "s = concat ws" by blast
  have "set (map rev (rev ws)) \<subseteq> set W" using ws(1) by auto
  moreover have "rev s = concat (map rev (rev ws))" using ws(2) by (simp add: rev_concat)
  ultimately show "\<exists>ws. set ws \<subseteq> set W \<and> rev s = concat ws" by blast
qed

lemma concat_of_rev': "concat_of W s \<Longrightarrow> concat_of (map rev W) (rev s)"
  unfolding concat_of_def
proof -
  assume "\<exists>ws. set ws \<subseteq> set W \<and> s = concat ws"
  then obtain ws where ws: "set ws \<subseteq> set W" "s = concat ws" by blast
  have "set (map rev (rev ws)) \<subseteq> set (map rev W)" using ws(1) by auto
  moreover have "rev s = concat (map rev (rev ws))" using ws(2) by (simp add: rev_concat)
  ultimately show "\<exists>ws. set ws \<subseteq> set (map rev W) \<and> rev s = concat ws" by blast
qed

lemma find_seq_None:
  "find (\<lambda>w. w \<noteq> [] \<and> startsWith s w) W = None \<longleftrightarrow> (\<forall>w \<in> set W. w \<noteq> [] \<longrightarrow> \<not> startsWith s w)"
  by (auto simp: find_None_iff)

lemma find_seq_Some:
  "find (\<lambda>w. w \<noteq> [] \<and> startsWith s w) W = Some w \<Longrightarrow> w \<in> set W \<and> w \<noteq> [] \<and> startsWith s w"
  by (auto simp: find_Some_iff)

lemma strip_seqs_stuck:
  "(\<forall>w \<in> set W. w \<noteq> [] \<longrightarrow> \<not> startsWith s w) \<Longrightarrow> strip_seqs W s = s"
  using find_seq_None [of s W] by (subst strip_seqs.simps) simp

lemma strip_seqs_Nil [simp]: "strip_seqs W [] = []"
  by (rule strip_seqs_stuck) (auto simp: neq_Nil_conv)

lemma strip_seqs_decomp:
  "\<exists>pre. s = pre @ strip_seqs W s \<and> concat_of W pre"
proof (induction W s rule: strip_seqs.induct)
  case (1 W s)
  show ?case
  proof (cases "find (\<lambda>w. w \<noteq> [] \<and> startsWith s w) W")
    case None
    then have "strip_seqs W s = s" by (subst strip_seqs.simps) simp
    then have "s = [] @ strip_seqs W s \<and> concat_of W []" by simp
    then show ?thesis by blast
  next
    case (Some w)
    then have w: "w \<in> set W" "startsWith s w" using find_seq_Some by blast+
    then have sw: "s = w @ drop (length w) s" by (auto simp: startsWith_iff)
    from "1.IH" [OF Some] obtain pre where
      pre: "drop (length w) s = pre @ strip_seqs W (drop (length w) s)" "concat_of W pre"
      by blast
    have st: "strip_seqs W s = strip_seqs W (drop (length w) s)"
      using Some by (subst strip_seqs.simps) simp
    have "s = (w @ pre) @ strip_seqs W s" using sw pre(1) st by (metis append.assoc)
    moreover have "concat_of W (w @ pre)"
      using w(1) pre(2) by (simp add: concat_of_append concat_of_single)
    ultimately show ?thesis by blast
  qed
qed

lemma strip_seqs_done:
  "w \<in> set W \<Longrightarrow> w \<noteq> [] \<Longrightarrow> \<not> startsWith (strip_seqs W s) w"
proof (induction W s rule: strip_seqs.induct)
  case (1 W s)
  show ?case
  proof (cases "find (\<lambda>w. w \<noteq> [] \<and> startsWith s w) W")
    case None
    then have "strip_seqs W s = s" by (subst strip_seqs.simps) simp
    then show ?thesis using "1.prems" None find_seq_None [of s W] by simp
  next
    case (Some v)
    then have "strip_seqs W s = strip_seqs W (drop (length v) s)"
      by (subst strip_seqs.simps) simp
    then show ?thesis using "1.IH" [OF Some "1.prems"] by simp
  qed
qed

lemma prefix_freeD:
  "prefix_free W \<Longrightarrow> w \<in> set W \<Longrightarrow> w' \<in> set W \<Longrightarrow> startsWith w' w \<Longrightarrow> w' = w"
  by (auto simp: prefix_free_def list_all_iff)

lemma prefix_free_nonempty: "prefix_free W \<Longrightarrow> w \<in> set W \<Longrightarrow> w \<noteq> []"
  by (auto simp: prefix_free_def list_all_iff)

lemma strip_seqs_one:
  assumes "prefix_free W" "w \<in> set W"
  shows "strip_seqs W (w @ s) = strip_seqs W s"
proof -
  have wn: "w \<noteq> []" using assms by (rule prefix_free_nonempty)
  have "find (\<lambda>v. v \<noteq> [] \<and> startsWith (w @ s) v) W \<noteq> None"
    using assms(2) wn by (auto simp: find_None_iff startsWith_iff)
  then obtain v where v: "find (\<lambda>v. v \<noteq> [] \<and> startsWith (w @ s) v) W = Some v" by blast
  then have vv: "v \<in> set W" "v \<noteq> []" "startsWith (w @ s) v" using find_seq_Some by blast+
  have "startsWith (w @ s) w" by (simp add: startsWith_iff)
  with vv(3) have "startsWith w v \<or> startsWith v w" by (rule startsWith_same [rotated])
  then have "v = w" using prefix_freeD [OF assms(1)] vv(1) assms(2) by blast
  then show ?thesis using v by (subst strip_seqs.simps) simp
qed

lemma strip_seqs_prefix:
  assumes "prefix_free W" "concat_of W pre"
  shows "strip_seqs W (pre @ s) = strip_seqs W s"
proof -
  from assms(2) obtain ws where ws: "set ws \<subseteq> set W" "pre = concat ws"
    unfolding concat_of_def by blast
  have "strip_seqs W (concat ws @ s) = strip_seqs W s" using ws(1)
  proof (induction ws)
    case Nil
    then show ?case by simp
  next
    case (Cons w ws)
    then show ?case using strip_seqs_one [OF assms(1), of w "concat ws @ s"] by simp
  qed
  then show ?thesis using ws(2) by simp
qed

lemma stuck_append:
  assumes x: "x \<noteq> []" and st: "\<forall>w \<in> set W. w \<noteq> [] \<longrightarrow> \<not> startsWith x w"
    and t: "t = [] \<or> hd t \<notin> set (inner_bytes W)"
  shows "\<forall>w \<in> set W. w \<noteq> [] \<longrightarrow> \<not> startsWith (x @ t) w"
proof (intro ballI impI notI)
  fix w assume w: "w \<in> set W" "w \<noteq> []" "startsWith (x @ t) w"
  from startsWith_append_cases [OF w(3)] st w(1,2)
  obtain us where us: "us \<noteq> []" "w = x @ us" "startsWith t us" by blast
  from us(1,3) have tn: "t \<noteq> []" and hd: "hd t = hd us" by (cases t; cases us; auto)+
  have "hd us \<in> set (tl w)" using us(1,2) x by (cases x) auto
  then have "hd t \<in> set (inner_bytes W)" using w(1) hd by (auto simp: inner_bytes_def)
  with t tn show False by simp
qed

lemma strip_seqs_append:
  assumes pf: "prefix_free W" and ne: "strip_seqs W s \<noteq> []"
    and t: "t = [] \<or> hd t \<notin> set (inner_bytes W)"
  shows "strip_seqs W (s @ t) = strip_seqs W s @ t"
proof -
  obtain pre where pre: "s = pre @ strip_seqs W s" "concat_of W pre"
    using strip_seqs_decomp by blast
  let ?x = "strip_seqs W s"
  have st: "\<forall>w \<in> set W. w \<noteq> [] \<longrightarrow> \<not> startsWith ?x w" using strip_seqs_done by blast
  have "strip_seqs W (s @ t) = strip_seqs W (pre @ (?x @ t))" using pre(1) by (metis append.assoc)
  also have "\<dots> = strip_seqs W (?x @ t)" using pf pre(2) by (rule strip_seqs_prefix)
  also have "\<dots> = ?x @ t" using stuck_append [OF ne st t] by (rule strip_seqs_stuck)
  finally show ?thesis .
qed

lemma white_space_prefix_free: "prefix_free white_space"
  by (simp add: prefix_free_def white_space_def)

lemma white_space_suffix_free: "prefix_free (map rev white_space)"
  by (simp add: prefix_free_def white_space_def)

lemma white_space_heads: "w \<in> set white_space \<Longrightarrow> hd w \<notin> set (inner_bytes white_space)"
  by (auto simp: white_space_def inner_bytes_def)

lemma white_space_newline:
  "newline \<notin> set (inner_bytes white_space)" "newline \<notin> set (inner_bytes (map rev white_space))"
  by (simp_all add: white_space_def inner_bytes_def newline_def)

lemma white_space_pipe: "w \<in> set white_space \<Longrightarrow> CHR ''|'' \<notin> set w"
  by (auto simp: white_space_def)

lemma blank_concat_of: "blank s = concat_of white_space s"
  by (simp add: blank_def concat_of_def)

lemma white_start_iff: "white_start s \<longleftrightarrow> (\<exists>w \<in> set white_space. w \<noteq> [] \<and> startsWith s w)"
  using prefix_free_nonempty [OF white_space_prefix_free]
  by (auto simp: white_start_def list_ex_iff)

lemma white_end_iff:
  "white_end s \<longleftrightarrow> (\<exists>w \<in> set (map rev white_space). w \<noteq> [] \<and> startsWith (rev s) w)"
  using prefix_free_nonempty [OF white_space_prefix_free]
  by (auto simp: white_end_def list_ex_iff)

lemma trimStart_decomp: "\<exists>pre. s = pre @ trimStart s \<and> blank pre"
  unfolding trimStart_def blank_concat_of by (rule strip_seqs_decomp)

lemma trimEnd_decomp: "\<exists>post. s = trimEnd s @ post \<and> blank post"
proof -
  obtain pre where pre: "rev s = pre @ strip_seqs (map rev white_space) (rev s)"
    "concat_of (map rev white_space) pre"
    using strip_seqs_decomp by blast
  have "s = trimEnd s @ rev pre"
    using arg_cong [OF pre(1), of rev] by (simp add: trimEnd_def)
  moreover have "blank (rev pre)" unfolding blank_concat_of using pre(2) by (rule concat_of_rev)
  ultimately show ?thesis by blast
qed

lemma trimStart_done: "\<not> white_start (trimStart s)"
  unfolding white_start_iff trimStart_def using strip_seqs_done by blast

lemma trimEnd_done: "\<not> white_end (trimEnd s)"
  unfolding white_end_iff trimEnd_def using strip_seqs_done by (metis rev_rev_ident)

lemma trimStart_stuck: "\<not> white_start s \<Longrightarrow> trimStart s = s"
  unfolding white_start_iff trimStart_def by (rule strip_seqs_stuck) blast

lemma trimEnd_stuck: "\<not> white_end s \<Longrightarrow> trimEnd s = s"
proof -
  assume "\<not> white_end s"
  then have "strip_seqs (map rev white_space) (rev s) = rev s"
    unfolding white_end_iff by (intro strip_seqs_stuck) blast
  then show ?thesis by (simp add: trimEnd_def)
qed

lemma trimStart_blank_prefix: "blank pre \<Longrightarrow> trimStart (pre @ s) = trimStart s"
  unfolding trimStart_def blank_concat_of
  by (rule strip_seqs_prefix [OF white_space_prefix_free])

lemma trimEnd_blank_suffix: "blank w \<Longrightarrow> trimEnd (x @ w) = trimEnd x"
  unfolding trimEnd_def blank_concat_of
  using strip_seqs_prefix [OF white_space_suffix_free, of "rev w" "rev x"]
  by (simp add: concat_of_rev')

lemma trimStart_Nil [simp]: "trimStart [] = []"
  by (simp add: trimStart_def)

lemma trimEnd_Nil [simp]: "trimEnd [] = []"
  by (simp add: trimEnd_def)

lemma blank_trimStart: "blank s \<longleftrightarrow> trimStart s = []"
proof
  assume "blank s"
  then show "trimStart s = []" using trimStart_blank_prefix [of s "[]"] by simp
next
  assume "trimStart s = []"
  then show "blank s" using trimStart_decomp [of s] by auto
qed

lemma blank_Nil [simp]: "blank []"
  by (simp add: blank_trimStart)

lemma blank_append: "blank a \<Longrightarrow> blank b \<Longrightarrow> blank (a @ b)"
  unfolding blank_concat_of by (rule concat_of_append)

lemma blank_head: "blank t \<Longrightarrow> t = [] \<or> hd t \<notin> set (inner_bytes white_space)"
proof -
  assume "blank t"
  then obtain ws where ws: "set ws \<subseteq> set white_space" "t = concat ws"
    unfolding blank_def by blast
  show ?thesis using ws
  proof (induction ws arbitrary: t)
    case Nil
    then show ?case by simp
  next
    case (Cons w ws)
    then have "w \<in> set white_space" by simp
    then have "w \<noteq> []" "hd w \<notin> set (inner_bytes white_space)"
      using prefix_free_nonempty [OF white_space_prefix_free] white_space_heads by blast+
    then show ?case using Cons.prems(2) by simp
  qed
qed

lemma not_white_start_append:
  assumes "\<not> white_start x" "x \<noteq> []" "t = [] \<or> hd t \<notin> set (inner_bytes white_space)"
  shows "\<not> white_start (x @ t)"
  using stuck_append [OF assms(2) _ assms(3)] assms(1) unfolding white_start_iff by blast

lemma not_white_end_append:
  assumes "\<not> white_end x" "x \<noteq> []" "t = [] \<or> last t \<notin> set (inner_bytes (map rev white_space))"
  shows "\<not> white_end (t @ x)"
proof -
  have "rev t = [] \<or> hd (rev t) \<notin> set (inner_bytes (map rev white_space))"
    using assms(3) by (auto simp: hd_rev)
  from stuck_append [of "rev x" "map rev white_space" "rev t", OF _ _ this] assms(1,2)
  show ?thesis unfolding white_end_iff by auto
qed

lemma trimmed_unique:
  assumes "trimmed s t"
  shows "js_trim s = t"
proof -
  from assms obtain pre post where d: "s = pre @ t @ post" "blank pre" "blank post"
    and ws: "\<not> white_start t" and we: "\<not> white_end t"
    unfolding trimmed_def by blast
  show ?thesis
  proof (cases "t = []")
    case True
    then have "blank s" using d by (simp add: blank_append)
    then show ?thesis using True by (simp add: js_trim_def blank_trimStart)
  next
    case False
    have "trimStart s = trimStart (t @ post)" unfolding d(1) using d(2) by (rule trimStart_blank_prefix)
    also have "\<dots> = t @ post"
      by (rule trimStart_stuck) (rule not_white_start_append [OF ws False blank_head [OF d(3)]])
    finally have "js_trim s = trimEnd (t @ post)" by (simp add: js_trim_def)
    also have "\<dots> = trimEnd t" using d(3) by (rule trimEnd_blank_suffix)
    also have "\<dots> = t" using we by (rule trimEnd_stuck)
    finally show ?thesis .
  qed
qed

lemma js_trim_trimmed: "trimmed s (js_trim s)"
proof -
  obtain pre where pre: "s = pre @ trimStart s" "blank pre" using trimStart_decomp by blast
  obtain post where post: "trimStart s = js_trim s @ post" "blank post"
    using trimEnd_decomp [of "trimStart s"] by (auto simp: js_trim_def)
  have we: "\<not> white_end (js_trim s)" unfolding js_trim_def by (rule trimEnd_done)
  have ws: "\<not> white_start (js_trim s)"
  proof
    assume "white_start (js_trim s)"
    then have "white_start (js_trim s @ post)"
      unfolding white_start_iff using startsWith_append by blast
    then show False using trimStart_done [of s] post(1) by simp
  qed
  have "s = pre @ js_trim s @ post" using pre(1) post(1) by simp
  then show ?thesis unfolding trimmed_def using pre(2) post(2) ws we by blast
qed

lemma js_trim_iff: "trimmed s t \<longleftrightarrow> t = js_trim s"
  using trimmed_unique js_trim_trimmed by blast

lemma js_trim_blank_suffix: "blank w \<Longrightarrow> js_trim (x @ w) = js_trim x"
proof -
  assume w: "blank w"
  from js_trim_trimmed [of x] obtain pre post where
    d: "x = pre @ js_trim x @ post" "blank pre" "blank post"
      "\<not> white_start (js_trim x)" "\<not> white_end (js_trim x)"
    unfolding trimmed_def by blast
  have "x @ w = pre @ js_trim x @ (post @ w)" using d(1) by (metis append.assoc)
  moreover have "blank (post @ w)" using d(3) w by (rule blank_append)
  ultimately have "trimmed (x @ w) (js_trim x)" unfolding trimmed_def using d(2,4,5) by blast
  then show ?thesis by (rule trimmed_unique)
qed

lemma set_trimStart: "set (trimStart s) \<subseteq> set s"
  using trimStart_decomp [of s] by (metis set_append sup_ge2)

lemma set_trimEnd: "set (trimEnd s) \<subseteq> set s"
  using trimEnd_decomp [of s] by (metis set_append sup_ge1)

lemma js_split_first: "sep \<notin> set x \<Longrightarrow> js_split sep (x @ sep # r) = x # js_split sep r"
  by (induction x) auto

lemma js_split_join:
  "xs \<noteq> [] \<Longrightarrow> \<forall>l \<in> set xs. sep \<notin> set l \<Longrightarrow> js_split sep (join_with sep xs) = xs"
proof (induction sep xs rule: join_with.induct)
  case (1 sep)
  then show ?case by simp
next
  case (2 sep x)
  then show ?case by (simp add: js_split_no_sep)
next
  case (3 sep x y ys)
  then show ?case by (simp add: js_split_first)
qed

lemma join_with_snoc:
  "join_with sep (xs @ [l]) = concat (map (\<lambda>x. x @ [sep]) xs) @ l"
  by (induction sep xs rule: join_with.induct) auto

lemma last_terminated: "xs \<noteq> [] \<Longrightarrow> last (concat (map (\<lambda>x. x @ [sep]) xs)) = sep"
  by (induction xs rule: rev_induct) auto

lemma blank_no_pipe: "blank w \<Longrightarrow> CHR ''|'' \<notin> set w"
proof
  assume "blank w" and p: "CHR ''|'' \<in> set w"
  then obtain ws where ws: "set ws \<subseteq> set white_space" "w = concat ws"
    unfolding blank_def by blast
  with p obtain x where "x \<in> set ws" "CHR ''|'' \<in> set x" by auto
  then show False using ws(1) white_space_pipe by blast
qed

lemma not_blank_trimStart: "\<not> blank l \<Longrightarrow> trimStart l \<noteq> []"
  by (simp add: blank_trimStart)

lemma not_blank_trimEnd: "\<not> blank l \<Longrightarrow> trimEnd l \<noteq> []"
  using trimEnd_decomp [of l] by auto

lemma parse_line_trimEnd: "parse_line (trimEnd l) = parse_line l"
proof -
  obtain w where w: "l = trimEnd l @ w" "blank w" using trimEnd_decomp by blast
  let ?t = "trimEnd l"
  have field: "js_trim (takeWhile (\<lambda>c. c \<noteq> CHR ''|'') (?t @ w))
      = js_trim (takeWhile (\<lambda>c. c \<noteq> CHR ''|'') ?t)"
  proof (cases "CHR ''|'' \<in> set ?t")
    case True
    then show ?thesis by (simp add: takeWhile_append1 [of "CHR ''|''"])
  next
    case False
    have "\<forall>c \<in> set w. c \<noteq> CHR ''|''"
      using blank_no_pipe [OF w(2)] by auto
    then have tw: "takeWhile (\<lambda>c. c \<noteq> CHR ''|'') w = w" by (simp add: takeWhile_eq_all_conv)
    have tt: "takeWhile (\<lambda>c. c \<noteq> CHR ''|'') ?t = ?t"
      using False by (simp add: takeWhile_eq_all_conv) metis
    have "takeWhile (\<lambda>c. c \<noteq> CHR ''|'') (?t @ w) = ?t @ takeWhile (\<lambda>c. c \<noteq> CHR ''|'') w"
      by (rule takeWhile_append2) (use False in auto)
    then show ?thesis
      by (simp only: tw tt js_trim_blank_suffix [OF w(2)])
  qed
  show ?thesis
    unfolding parse_line_def js_split_hd using field w(1) by simp
qed

lemma listing_lines:
  assumes h: "is_row header" and r: "\<forall>l \<in> set rows. is_row l" and t: "blank trailing"
  shows "js_split newline (js_trim (join_with newline (header # rows) @ trailing))
           = (if rows = [] then [js_trim header]
              else trimStart header # butlast rows @ [trimEnd (last rows)])"
proof (cases rows rule: rev_cases)
  case Nil
  have "js_trim (header @ trailing) = js_trim header" using t by (rule js_trim_blank_suffix)
  moreover have "newline \<notin> set (js_trim header)"
    using h set_trimStart [of header] set_trimEnd [of "trimStart header"]
    by (auto simp: is_row_def js_trim_def)
  ultimately show ?thesis using Nil by (simp add: js_split_no_sep)
next
  case (snoc rs l)
  have l: "\<not> blank l" "newline \<notin> set l" using r snoc by (auto simp: is_row_def)
  have hd: "\<not> blank header" "newline \<notin> set header" using h by (auto simp: is_row_def)
  obtain pre where pre: "header = pre @ trimStart header" "blank pre"
    using trimStart_decomp by blast
  obtain post where post: "l = trimEnd l @ post" "blank post"
    using trimEnd_decomp by blast
  let ?M = "concat (map (\<lambda>x. x @ [newline]) rs)"
  let ?t = "join_with newline ((trimStart header # rs) @ [trimEnd l])"
  have tform: "?t = trimStart header @ newline # ?M @ trimEnd l"
    using join_with_snoc [of newline "trimStart header # rs" "trimEnd l"] by simp
  have "join_with newline ((header # rs) @ [l]) = header @ newline # ?M @ l"
    using join_with_snoc [of newline "header # rs" l] by simp
  also have "\<dots> = (pre @ trimStart header) @ newline # ?M @ (trimEnd l @ post)"
    using pre(1) post(1) by simp
  finally have out: "join_with newline (header # rows) @ trailing = pre @ ?t @ (post @ trailing)"
    using snoc tform by simp
  have ws: "\<not> white_start ?t"
    unfolding tform
    by (rule not_white_start_append [OF trimStart_done not_blank_trimStart [OF hd(1)]])
       (simp add: white_space_newline)
  have lastM: "last (trimStart header @ newline # ?M) = newline"
    using last_terminated [of "trimStart header # rs" newline] by simp
  have "\<not> white_end ((trimStart header @ newline # ?M) @ trimEnd l)"
    by (rule not_white_end_append [OF trimEnd_done not_blank_trimEnd [OF l(1)]])
       (simp add: lastM white_space_newline del: last_append last.simps)
  then have we: "\<not> white_end ?t" using tform by simp
  have "trimmed (join_with newline (header # rows) @ trailing) ?t"
    unfolding trimmed_def using out pre(2) blank_append [OF post(2) t] ws we by blast
  then have tr: "js_trim (join_with newline (header # rows) @ trailing) = ?t"
    by (rule trimmed_unique)
  have free: "\<forall>x \<in> set ((trimStart header # rs) @ [trimEnd l]). newline \<notin> set x"
    using hd(2) l(2) r snoc set_trimStart [of header] set_trimEnd [of l]
    by (auto simp: is_row_def)
  have sp: "js_split newline ?t = (trimStart header # rs) @ [trimEnd l]"
    by (rule js_split_join [OF _ free]) simp
  show ?thesis unfolding tr sp using snoc by simp
qed

text \<open>
  Claim C4, as the claim states it, fails: a forced reload with a listing that has
  the header line only, while a registry is loaded, shows the error and leaves
  the loaded registry in place; the registry is not unset afterwards.
\<close>

theorem refreshConfig_without_authids_keeps_registry:
  "refreshConfig project_state
      (project_host\<lparr>manageauth_list := Some (''AuthId | Account'' @ [newline])\<rparr>)
     = Inr (say (ShowErrorMessage no_authids_message) project_state)
   \<and> sdfConfig (say (ShowErrorMessage no_authids_message) project_state)
       = Some \<lparr>environments = [\<lparr>authid = ''a''\<rparr>, \<lparr>authid = ''b''\<rparr>]\<rparr>
   \<and> sdfConfig (say (ShowErrorMessage no_authids_message) project_state) \<noteq> None"
  by code_simp

text \<open>
  Claim C4, amended. When the listing of accounts is a header line and \<open>N\<close> more
  lines (joined by newlines, with white space at most after the last), loading the
  registry gives, for \<open>N > 0\<close>, exactly one environment for every line after the
  header, in order, whose \<open>authid\<close> is the text before the first \<^verbatim>\<open>|\<close> of the line,
  trimmed. For \<open>N = 0\<close>, and whenever the trimmed listing has fewer than two lines,
  the error about missing authids is shown and the registry is left as it was: not
  set when it was not set, the registry loaded before otherwise, and never an
  empty registry.
\<close>

theorem getConfig_loads_listing:
  assumes "sdfCliIsInstalled s" "workspaceFolder h = Some root" "force \<or> sdfConfig s = None"
  shows "(manageauth_list h = Some (join_with newline (header # rows) @ trailing)
          \<and> is_row header \<and> (\<forall>l \<in> set rows. is_row l) \<and> blank trailing
          \<longrightarrow> (\<exists>envs.
                getConfig s h force =
                  (if rows = []
                   then Inr (say (ShowErrorMessage no_authids_message) (s\<lparr>rootPath := root\<rparr>))
                   else Inr (s\<lparr>rootPath := root, sdfConfig := Some \<lparr>environments = envs\<rparr>\<rparr>))
                \<and> length envs = length rows
                \<and> (\<forall>i < length rows.
                      trimmed (takeWhile (\<lambda>c. c \<noteq> CHR ''|'') (rows ! i)) (authid (envs ! i)))))
     \<and> (manageauth_list h = Some out \<and> trimmed out t \<and> length (js_split newline t) < 2
          \<longrightarrow> (\<exists>s1. getConfig s h force = Inr s1 \<and> sdfConfig s1 = sdfConfig s
                 \<and> (sdfConfig s = None \<longrightarrow> sdfConfig s1 = None)
                 \<and> events s1 = events s @ [ShowErrorMessage no_authids_message]))"
proof -
  let ?s = "s\<lparr>rootPath := root\<rparr>"
  have g: "getConfig s h force = load_registry ?s h"
    using assms by (auto simp: getConfig_def Let_def)
  have 1: "\<exists>envs.
                getConfig s h force =
                  (if rows = []
                   then Inr (say (ShowErrorMessage no_authids_message) ?s)
                   else Inr (s\<lparr>rootPath := root, sdfConfig := Some \<lparr>environments = envs\<rparr>\<rparr>))
                \<and> length envs = length rows
                \<and> (\<forall>i < length rows.
                      trimmed (takeWhile (\<lambda>c. c \<noteq> CHR ''|'') (rows ! i)) (authid (envs ! i)))"
    if m: "manageauth_list h = Some (join_with newline (header # rows) @ trailing)"
      and r: "is_row header" "\<forall>l \<in> set rows. is_row l" "blank trailing"
  proof -
    let ?lines = "js_split newline (js_trim (join_with newline (header # rows) @ trailing))"
    let ?envs = "map parse_line rows"
    have lines: "?lines = (if rows = [] then [js_trim header]
              else trimStart header # butlast rows @ [trimEnd (last rows)])"
      using r by (rule listing_lines)
    have n: "length ?lines = Suc (length rows)" unfolding lines by simp
    have e: "map parse_line (drop 1 ?lines) = ?envs"
    proof (cases rows rule: rev_cases)
      case Nil
      then show ?thesis unfolding lines by simp
    next
      case (snoc rs l)
      then show ?thesis unfolding lines by (simp add: parse_line_trimEnd)
    qed
    have "getConfig s h force =
                  (if rows = []
                   then Inr (say (ShowErrorMessage no_authids_message) ?s)
                   else Inr (s\<lparr>rootPath := root, sdfConfig := Some \<lparr>environments = ?envs\<rparr>\<rparr>))"
      unfolding g load_registry_def using m n e
      by (cases rows) (simp_all add: Let_def)
    moreover have "\<forall>i < length rows.
        trimmed (takeWhile (\<lambda>c. c \<noteq> CHR ''|'') (rows ! i)) (authid (?envs ! i))"
      by (simp add: parse_line_def js_split_hd js_trim_trimmed)
    ultimately show ?thesis by (intro exI [of _ ?envs]) simp
  qed
  have 2: "\<exists>s1. getConfig s h force = Inr s1 \<and> sdfConfig s1 = sdfConfig s
                 \<and> (sdfConfig s = None \<longrightarrow> sdfConfig s1 = None)
                 \<and> events s1 = events s @ [ShowErrorMessage no_authids_message]"
    if "manageauth_list h = Some out" "trimmed out t" "length (js_split newline t) < 2"
  proof -
    have "js_trim out = t" using that(2) by (rule trimmed_unique)
    then show ?thesis
      unfolding g load_registry_def using that(1,3) by (simp add: Let_def say_def)
  qed
  show ?thesis using 1 2 by blast
qed

theorem getConfig_loads_listing_witness:"getConfig project_state project_host True
     = Inr (project_state\<lparr>sdfConfig := Some \<lparr>environments = [\<lparr>authid = ''b''\<rparr>]\<rparr>\<rparr>)
   \<and> trimmed (takeWhile (\<lambda>c. c \<noteq> CHR ''|'') ''b | 1234'') ''b''
   \<and> getConfig (project_state\<lparr>sdfConfig := None\<rparr>)
        (project_host\<lparr>manageauth_list := Some (''AuthId | Account'' @ [newline])\<rparr>) False
     = Inr (say (ShowErrorMessage no_authids_message) (project_state\<lparr>sdfConfig := None\<rparr>))
   \<and> (\<exists>s1. getConfig project_state (project_host\<lparr>manageauth_list := Some [newline]\<rparr>) True = Inr s1
         \<and> sdfConfig s1 = sdfConfig project_state
         \<and> events s1 = [ShowErrorMessage no_authids_message])"
proof -
  have t1: "trimStart ''AuthId | Account'' = ''AuthId | Account''"
    and t2: "trimStart ''b | 1234'' = ''b | 1234''"
    and t3: "trimStart [newline] = []"
    and t4: "js_trim ''b '' = ''b''" and t5: "js_trim [newline] = []"
    by code_simp+
  have rows: "is_row ''AuthId | Account''" "is_row ''b | 1234''" "blank [newline]"
    by (simp_all add: is_row_def blank_trimStart t1 t2 t3) (simp_all add: newline_def)
  have tr: "trimmed [newline] []" "trimmed ''b '' ''b''"
    using js_trim_trimmed [of "[newline]"] js_trim_trimmed [of "''b ''"] by (simp_all add: t4 t5)
  have sp: "js_split newline (js_trim listing_b) = [''AuthId | Account'', ''b | 1234'']"
    "js_split newline (js_trim (''AuthId | Account'' @ [newline])) = [''AuthId | Account'']"
    "js_split newline (js_trim [newline]) = [[]]"
    by code_simp+
  have pl: "parse_line ''b | 1234'' = \<lparr>authid = ''b''\<rparr>"
    by code_simp
  have eval: "getConfig project_state project_host True
     = Inr (project_state\<lparr>sdfConfig := Some \<lparr>environments = [\<lparr>authid = ''b''\<rparr>]\<rparr>\<rparr>)"
    by (simp add: getConfig_def load_registry_def Let_def project_state_def project_host_def sp pl)
  show ?thesis
    using getConfig_loads_listing [where s = project_state and h = project_host
        and root = "''/home/u/proj''" and force = True and header = "''AuthId | Account''"
        and rows = "[''b | 1234'']" and trailing = "[newline]"]
      getConfig_loads_listing [where s = "project_state\<lparr>sdfConfig := None\<rparr>"
        and h = "project_host\<lparr>manageauth_list := Some (''AuthId | Account'' @ [newline])\<rparr>"
        and root = "''/home/u/proj''" and force = False and header = "''AuthId | Account''"
        and rows = "[]" and trailing = "[newline]"]
      getConfig_loads_listing [where s = project_state
        and h = "project_host\<lparr>manageauth_list := Some [newline]\<rparr>"
        and root = "''/home/u/proj''" and force = True and out = "[newline]" and t = "[]"]
      rows tr eval
    by (simp add: project_state_def project_host_def listing_b_def)
qed

section \<open>The active environment after a reload\<close>

text \<open>
  Claim C9, as the claim states it, fails: \<^verbatim>\<open>refreshConfig\<close> with a listing that
  has \<^verbatim>\<open>b\<close> only, while \<^verbatim>\<open>a\<close> is active, leaves \<^verbatim>\<open>a\<close> active and shows nothing,
  and the next command is run with \<^verbatim>\<open>-authid a\<close>.
\<close>

theorem refreshConfig_keeps_stale_selection:
  "refreshConfig project_state project_host
     = Inr (project_state\<lparr>sdfConfig := Some \<lparr>environments = [\<lparr>authid = ''b''\<rparr>]\<rparr>\<rparr>)
   \<and> activeEnvironment (project_state\<lparr>sdfConfig := Some \<lparr>environments = [\<lparr>authid = ''b''\<rparr>]\<rparr>\<rparr>)
       = Some \<lparr>authid = ''a''\<rparr>
   \<and> events (project_state\<lparr>sdfConfig := Some \<lparr>environments = [\<lparr>authid = ''b''\<rparr>]\<rparr>\<rparr>) = []
   \<and> spawns (events_of (runCommand
         (project_state\<lparr>sdfConfig := Some \<lparr>environments = [\<lparr>authid = ''b''\<rparr>]\<rparr>\<rparr>)
         project_host (project_process Completed) Deploy []))
       = [([''deploy'', ''-authid'', ''a'', ''-p'', ''/home/u/proj''], ''/home/u/proj'')]"
  by code_simp

text \<open>
  Claim C9, amended. A reload of the registry (forced by \<^verbatim>\<open>refreshConfig\<close>, or
  done by the next \<^verbatim>\<open>getConfig\<close> after \<^verbatim>\<open>authenticate\<close> has set the registry to
  \<^verbatim>\<open>null\<close>) leaves the active environment as it was; a reload that builds a
  registry changes the registry and the project root and nothing else, so nothing
  is shown; and the next command that is started is run with the \<open>authid\<close> that
  was active before, whether the new registry lists it or not.
\<close>

theorem reload_keeps_active_environment:
  "(getConfig s h force = Inr s1 \<and> (force \<or> sdfConfig s = None)
      \<longrightarrow> activeEnvironment s1 = activeEnvironment s)
   \<and> (sdfCliIsInstalled s \<and> workspaceFolder h = Some root \<and> manageauth_list h = Some out
       \<and> 2 \<le> length (js_split newline (js_trim out)) \<and> (force \<or> sdfConfig s = None)
      \<longrightarrow> getConfig s h force =
            Inr (s\<lparr>rootPath := root,
                    sdfConfig := Some \<lparr>environments =
                      map parse_line (drop 1 (js_split newline (js_trim out)))\<rparr>\<rparr>))
   \<and> (getConfig s h False = Inr s1 \<and> sdfConfig s1 = Some config
       \<and> activeEnvironment s = Some env \<and> addDefaultParameters s
      \<longrightarrow> (\<exists>rest cwd. spawns (events_of (runCommand s h p command args))
             = spawns (events s) @ [(token h command # ''-authid'' # authid env # rest, cwd)]))"
proof -
  have 1: "activeEnvironment s1 = activeEnvironment s"
    if "getConfig s h force = Inr s1" "force \<or> sdfConfig s = None"
    using that by (auto intro: getConfig_active)
  have 2: "getConfig s h force =
            Inr (s\<lparr>rootPath := root,
                    sdfConfig := Some \<lparr>environments =
                      map parse_line (drop 1 (js_split newline (js_trim out)))\<rparr>\<rparr>)"
    if "sdfCliIsInstalled s" "workspaceFolder h = Some root" "manageauth_list h = Some out"
      "2 \<le> length (js_split newline (js_trim out))" "force \<or> sdfConfig s = None"
  proof -
    have "getConfig s h force = load_registry (s\<lparr>rootPath := root\<rparr>) h"
      using that by (auto simp: getConfig_def Let_def)
    then show ?thesis using that(3,4) by (simp add: load_registry_def Let_def)
  qed
  have 3: "\<exists>rest cwd. spawns (events_of (runCommand s h p command args))
             = spawns (events s) @ [(token h command # ''-authid'' # authid env # rest, cwd)]"
    if g: "getConfig s h False = Inr s1" and c: "sdfConfig s1 = Some config"
      and a: "activeEnvironment s = Some env" and d: "addDefaultParameters s"
  proof -
    have a1: "activeEnvironment s1 = Some env"
      using getConfig_active [OF g] a by simp
    have d1: "addDefaultParameters s1" using getConfig_fields(2) [OF g] d by simp
    show ?thesis
      unfolding runCommand_spawns [OF g c a1] getConfig_fields(4) [OF g]
      using d1 by (simp add: commandArray_def)
  qed
  show ?thesis using 1 2 3 by blast
qed

theorem reload_keeps_active_environment_witness:
  "getConfig project_state project_host True
     = Inr (project_state\<lparr>sdfConfig := Some \<lparr>environments = [\<lparr>authid = ''b''\<rparr>]\<rparr>\<rparr>)
   \<and> activeEnvironment (project_state\<lparr>sdfConfig := Some \<lparr>environments = [\<lparr>authid = ''b''\<rparr>]\<rparr>\<rparr>)
       = activeEnvironment project_state
   \<and> (\<exists>rest cwd. spawns (events_of (runCommand (authenticate project_state (Some ''c''))
          project_host (project_process Completed) Deploy []))
        = [(''deploy'' # ''-authid'' # ''a'' # rest, cwd)])"
proof -
  have sp: "js_split newline (js_trim listing_b) = [''AuthId | Account'', ''b | 1234'']"
    by code_simp
  have pl: "parse_line ''b | 1234'' = \<lparr>authid = ''b''\<rparr>"
    by code_simp
  let ?s = "authenticate project_state (Some ''c'')"
  let ?s1 = "?s\<lparr>sdfConfig := Some \<lparr>environments = [\<lparr>authid = ''b''\<rparr>]\<rparr>\<rparr>"
  have i: "sdfCliIsInstalled ?s" "sdfConfig ?s = None" "activeEnvironment ?s = Some \<lparr>authid = ''a''\<rparr>"
    "addDefaultParameters ?s" "spawns (events ?s) = []" "rootPath ?s = ''/home/u/proj''"
    by (simp_all add: authenticate_def project_state_def say_def Let_def)
  have g: "getConfig ?s project_host False = Inr ?s1"
    using reload_keeps_active_environment [of ?s project_host False _ "''/home/u/proj''" listing_b] i sp pl
    by (simp add: project_host_def)
  show ?thesis
    using reload_keeps_active_environment [of project_state project_host True
        "project_state\<lparr>sdfConfig := Some \<lparr>environments = [\<lparr>authid = ''b''\<rparr>]\<rparr>\<rparr>"
        "''/home/u/proj''" listing_b]
      reload_keeps_active_environment [of ?s project_host False ?s1 _ _
        "\<lparr>environments = [\<lparr>authid = ''b''\<rparr>]\<rparr>" "\<lparr>authid = ''a''\<rparr>" "project_process Completed" Deploy "[]"]
      g i sp pl
    by (simp add: project_host_def project_state_def)
qed

section \<open>Adding a path to the manifest\<close>

lemma get_set_paths [simp]: "get_paths (set_paths d xp es) xp = es"
  by (cases xp; cases "groups d xp") (auto simp: get_paths_def set_paths_def groups_def Let_def)

lemma groups_set_paths_other [simp]:
  "groups (set_paths d xp es) (other_path xp) = groups d (other_path xp)"
  by (cases xp) (auto simp: set_paths_def groups_def Let_def)

lemma get_paths_default [simp]: "get_paths defaultXml xp = []"
  by (cases xp) (simp_all add: get_paths_def groups_def defaultXml_def)

lemma addFileToDeploy_present:
  assumes "fs (deployPath s) = Some d" "relativePath t \<in> set (get_paths d (xmlPath_of t))"
  shows "addFileToDeploy s fs written t
    = Inr (say (ShowInformationMessage (already_exists_message t)) s, fs)"
  using assms by (simp add: addFileToDeploy_def deployPath_def xmlPath_of_def Let_def)

lemma addFileToDeploy_absent:
  assumes "fs (deployPath s) \<noteq> None \<or> written"
    and "relativePath t \<notin> set (get_paths (manifest fs s) (xmlPath_of t))"
  shows "addFileToDeploy s fs written t
    = Inr (s\<lparr>events := events s
                @ (if fs (deployPath s) = None then [WriteFile (deployPath s)] else [])
                @ [WriteFile (deployPath s), ShowInformationMessage (added_message t)]\<rparr>,
           fs(deployPath s \<mapsto> set_paths (manifest fs s) (xmlPath_of t)
                (get_paths (manifest fs s) (xmlPath_of t) @ [relativePath t])))"
proof (cases "fs (deployPath s)")
  case None
  then show ?thesis using assms
    by (simp add: addFileToDeploy_def deployPath_def xmlPath_of_def manifest_def Let_def say_def)
next
  case (Some d)
  then show ?thesis using assms
    by (simp add: addFileToDeploy_def deployPath_def xmlPath_of_def manifest_def Let_def say_def)
qed

lemma addFileToDeploy_unread:
  "fs (deployPath s) = None \<Longrightarrow> addFileToDeploy s fs False t = Inl ReadFileFailed"
  by (simp add: addFileToDeploy_def deployPath_def Let_def)

text \<open>
  Claim C7. The code does not do what the claim says on a project that has no
  manifest: when \<^verbatim>\<open>openFile\<close> reads before the write of the default manifest is
  done, the first call is rejected at the read; no path is appended and nothing is
  shown.
\<close>

theorem addFileToDeploy_without_manifest_rejects:
  "addFileToDeploy project_state Map.empty False project_target = Inl ReadFileFailed"
  by (simp add: addFileToDeploy_def Let_def)

text \<open>
  When the read finds the manifest (there was one, or the default one is on disk
  in time), and the second call starts when the write of the first is done, the
  two calls do what is wanted: the second call shows that the entry exists
  already, writes nothing and leaves the manifest as the first call left it; and
  when the path was not in the list before, the first call appends it at the end
  of that list, leaves the other list as it was, writes the manifest and shows
  that the entry was added.
\<close>

lemma addFileToDeploy_twice:
  assumes found: "fs (deployPath s) \<noteq> None \<or> written"
  shows "\<exists>s1 fs1 s2.
      addFileToDeploy s fs written t = Inr (s1, fs1)
    \<and> addFileToDeploy s1 fs1 written' t = Inr (s2, fs1)
    \<and> events s2 = events s1 @ [ShowInformationMessage (already_exists_message t)]
    \<and> (relativePath t \<notin> set (get_paths (manifest fs s) (xmlPath_of t)) \<longrightarrow>
         fs1 = fs(deployPath s \<mapsto> manifest fs1 s)
         \<and> get_paths (manifest fs1 s) (xmlPath_of t)
             = get_paths (manifest fs s) (xmlPath_of t) @ [relativePath t]
         \<and> groups (manifest fs1 s) (other_path (xmlPath_of t))
             = groups (manifest fs s) (other_path (xmlPath_of t))
         \<and> events s1 = events s
             @ (if fs (deployPath s) = None then [WriteFile (deployPath s)] else [])
             @ [WriteFile (deployPath s), ShowInformationMessage (added_message t)])"
proof (cases "relativePath t \<in> set (get_paths (manifest fs s) (xmlPath_of t))")
  case True
  then obtain d where d: "fs (deployPath s) = Some d"
    and m: "relativePath t \<in> set (get_paths d (xmlPath_of t))"
    by (cases "fs (deployPath s)") (auto simp: manifest_def)
  have 1: "addFileToDeploy s fs written t
      = Inr (say (ShowInformationMessage (already_exists_message t)) s, fs)"
    using d m by (rule addFileToDeploy_present)
  let ?s1 = "say (ShowInformationMessage (already_exists_message t)) s"
  have dp: "deployPath ?s1 = deployPath s" by (simp add: deployPath_def say_def)
  have 2: "addFileToDeploy ?s1 fs written' t
      = Inr (say (ShowInformationMessage (already_exists_message t)) ?s1, fs)"
    by (rule addFileToDeploy_present [of fs ?s1 d]) (use d m dp in simp_all)
  show ?thesis using 1 2 True by (simp add: say_def)
next
  case False
  let ?new = "set_paths (manifest fs s) (xmlPath_of t)
                (get_paths (manifest fs s) (xmlPath_of t) @ [relativePath t])"
  let ?s1 = "s\<lparr>events := events s
                @ (if fs (deployPath s) = None then [WriteFile (deployPath s)] else [])
                @ [WriteFile (deployPath s), ShowInformationMessage (added_message t)]\<rparr>"
  let ?fs1 = "fs(deployPath s \<mapsto> ?new)"
  have 1: "addFileToDeploy s fs written t = Inr (?s1, ?fs1)"
    using found False by (rule addFileToDeploy_absent)
  have dp: "deployPath ?s1 = deployPath s" by (simp add: deployPath_def)
  have m: "manifest ?fs1 s = ?new" by (simp add: manifest_def)
  have 2: "addFileToDeploy ?s1 ?fs1 written' t
      = Inr (say (ShowInformationMessage (already_exists_message t)) ?s1, ?fs1)"
    by (rule addFileToDeploy_present [of ?fs1 ?s1 ?new]) (simp_all add: dp)
  show ?thesis
    unfolding 1 using 2 False m by (simp add: say_def)
qed

end
